theory Spec2Isabelle
  imports Complex_Main "HOL-Library.Multiset"
begin

section \<open>Data model of the player context (src/index.tsx)\<close>

text \<open>
  A song object as \<open>handleSaveMetadata\<close> builds it: \<open>{id, title, artist, albumArtUrl, file}\<close>.
  The id is \<open>Date.now()\<close>, a non-negative integer. The \<open>file\<close> field holds the imported
  File object; the history written to localStorage drops it
  (\<open>const { file, ...storableSong } = song\<close>), so an entry read back in a later session has
  no \<open>file\<close>: the field is optional, and \<open>songToPlay.file\<close> is truthy exactly when it is
  present (field \<open>song_file\<close>). A file handle is opaque and is modelled by a number.
\<close>

type_synonym handle = nat

record track =
  song_id :: nat
  title :: string
  artist :: string
  albumArtUrl :: string
  song_file :: "handle option"

text \<open>The repeat mode is one of the strings \<open>'off'\<close>, \<open>'all'\<close>, \<open>'one'\<close>.\<close>

datatype repeat_mode = RepeatOff | RepeatAll | RepeatOne

text \<open>
  Everything the provider does besides updating its own state, in the order it happens:
  the commands sent to the one \<open>audio\<close> element (\<open>audioRef.current.src = ...\<close>,
  \<open>.play()\<close>, \<open>.pause()\<close>, \<open>.currentTime = ...\<close>), the \<open>alert\<close> shown for a song of an
  earlier session, and the TypeError that \<open>URL.createObjectURL\<close> throws when it is handed
  no file. A rejected \<open>play()\<close> promise is only logged by the source and changes nothing.
\<close>

datatype effect = SetSrc handle | Play | Pause | SetCurrentTime real | Alert | TypeError

text \<open>
  The state hooks of \<open>PlayerProvider\<close>. Times are JavaScript numbers that are only stored
  and passed on, never computed with; they are modelled as reals. \<open>rngPos\<close> is not a hook:
  it counts the draws taken from \<open>Math.random\<close> so far (see \<open>shuffleArray\<close>). \<open>effects\<close> is
  the trace described above.
\<close>

record player =
  currentSong :: "track option"
  isPlaying :: bool
  progress :: real
  duration :: real
  isFullPlayerVisible :: bool
  currentQueue :: "track list"
  shuffledQueue :: "track list"
  isShuffleActive :: bool
  repeatMode :: repeat_mode
  recentlyPlayed :: "track list"
  rngPos :: nat
  effects :: "effect list"

section \<open>The Fisher-Yates shuffle\<close>

text \<open>
  \<open>shuffleArray\<close> runs \<open>while (currentIndex !== 0)\<close> from \<open>currentIndex = array.length\<close>:
  it draws \<open>randomIndex = Math.floor(Math.random() * currentIndex)\<close>, decrements
  \<open>currentIndex\<close> and swaps the two positions. The draw is an integer with
  \<open>0 \<le> randomIndex < currentIndex\<close>, and every such integer is possible. The randomness
  source is a parameter: \<open>rnd\<close> is the sequence of raw draws, the draw number \<open>pos\<close> is
  reduced modulo \<open>currentIndex\<close>. The loop counts \<open>currentIndex\<close> down to zero, so it is
  structural recursion on it. The destructuring swap reads both cells before it writes.
\<close>

fun shuffleLoop :: "(nat \<Rightarrow> nat) \<Rightarrow> nat \<Rightarrow> nat \<Rightarrow> 'a list \<Rightarrow> 'a list" where
  "shuffleLoop rnd pos 0 array = array"
| "shuffleLoop rnd pos (Suc currentIndex) array =
     (let randomIndex = rnd pos mod Suc currentIndex
      in shuffleLoop rnd (Suc pos) currentIndex
           (array[currentIndex := array ! randomIndex, randomIndex := array ! currentIndex]))"

definition shuffleArray :: "(nat \<Rightarrow> nat) \<Rightarrow> nat \<Rightarrow> 'a list \<Rightarrow> 'a list" where
  "shuffleArray rnd pos array = shuffleLoop rnd pos (length array) array"

text \<open>
  The shuffled queue is built in two places, \<open>playSong\<close> and \<open>toggleShuffle\<close>, by the same
  two lines: \<open>otherSongs = queue.filter(s => s.id !== anchor.id)\<close> and
  \<open>[anchor, ...shuffleArray(otherSongs)]\<close>.
\<close>

definition otherSongs :: "track list \<Rightarrow> track \<Rightarrow> track list" where
  "otherSongs queue anchor = filter (\<lambda>s. song_id s \<noteq> song_id anchor) queue"

definition buildShuffledQueue :: "(nat \<Rightarrow> nat) \<Rightarrow> nat \<Rightarrow> track list \<Rightarrow> track \<Rightarrow> track list" where
  "buildShuffledQueue rnd pos queue anchor = anchor # shuffleArray rnd pos (otherSongs queue anchor)"

section \<open>The operations of the provider\<close>

text \<open>
  Every operation is an event handler: a closure of one render that reads the hooks of
  that render and queues updates. This section has the operations as the views run
  them: a view holds the closures of the current render, so the hooks read are the
  current state, and no handler reads a hook after it has queued an update of that hook;
  the operations are functions from the state before to the state after. The library
  \<open>songs\<close> is a prop of the provider and a parameter here. The next section has the same
  operations run by a closure of an earlier render.
\<close>

definition togglePlayPause :: "player \<Rightarrow> player" where
  "togglePlayPause s =
     (case currentSong s of
        None \<Rightarrow> s
      | Some c \<Rightarrow>
          s\<lparr>isPlaying := \<not> isPlaying s,
            effects := effects s @ [if isPlaying s then Pause else Play]\<rparr>)"

text \<open>
  \<open>const song = songToPlay.file ? songToPlay : songs.find(s => s.id === songToPlay.id)\<close>;
  \<open>find\<close> returns the first match or \<open>undefined\<close>.
\<close>

definition resolveSong :: "track list \<Rightarrow> track \<Rightarrow> track option" where
  "resolveSong songs songToPlay =
     (if song_file songToPlay \<noteq> None then Some songToPlay
      else find (\<lambda>s. song_id s = song_id songToPlay) songs)"

text \<open>
  \<open>playSong(songToPlay, queue)\<close>. The queue argument is optional (\<open>if (queue)\<close>; an array,
  also an empty one, is truthy). The first block replaces the queue and, under shuffle,
  the shuffled queue. Then the song is resolved; without a result the handler alerts,
  filters the history and returns. Otherwise it toggles when the song has the id of the
  current one, or starts the song; \<open>URL.createObjectURL(song.file)\<close> throws when the
  resolved library entry has no file, which ends the handler after \<open>setCurrentSong\<close>.
  Last, the song is put in front of the history, which is cut to 50 entries.
\<close>

definition setQueues :: "(nat \<Rightarrow> nat) \<Rightarrow> track \<Rightarrow> track list option \<Rightarrow> player \<Rightarrow> player" where
  "setQueues rnd songToPlay queue s =
     (case queue of
        None \<Rightarrow> s
      | Some q \<Rightarrow>
          if isShuffleActive s
          then s\<lparr>currentQueue := q,
                 shuffledQueue := buildShuffledQueue rnd (rngPos s) q songToPlay,
                 rngPos := rngPos s + length (otherSongs q songToPlay)\<rparr>
          else s\<lparr>currentQueue := q\<rparr>)"

definition pushHistory :: "track \<Rightarrow> track list \<Rightarrow> track list" where
  "pushHistory song prev = take 50 (song # filter (\<lambda>s. song_id s \<noteq> song_id song) prev)"

definition playSong :: "track list \<Rightarrow> (nat \<Rightarrow> nat) \<Rightarrow> track \<Rightarrow> track list option \<Rightarrow> player \<Rightarrow> player" where
  "playSong songs rnd songToPlay queue s =
     (let s1 = setQueues rnd songToPlay queue s in
      case resolveSong songs songToPlay of
        None \<Rightarrow>
          s1\<lparr>effects := effects s1 @ [Alert],
             recentlyPlayed := filter (\<lambda>x. song_id x \<noteq> song_id songToPlay) (recentlyPlayed s1)\<rparr>
      | Some song \<Rightarrow>
          if (case currentSong s of None \<Rightarrow> False | Some c \<Rightarrow> song_id c = song_id song)
          then (togglePlayPause s1)\<lparr>recentlyPlayed := pushHistory song (recentlyPlayed s1)\<rparr>
          else
            (case song_file song of
               None \<Rightarrow> s1\<lparr>currentSong := Some song, effects := effects s1 @ [TypeError]\<rparr>
             | Some f \<Rightarrow>
                 s1\<lparr>currentSong := Some song,
                    effects := effects s1 @ [SetSrc f, Play],
                    isPlaying := True,
                    recentlyPlayed := pushHistory song (recentlyPlayed s1)\<rparr>))"

text \<open>
  \<open>findIndex\<close> returns the first index whose element satisfies the predicate, or \<open>-1\<close>;
  \<open>-1\<close> is \<open>None\<close> here.
\<close>

fun findIndex :: "('a \<Rightarrow> bool) \<Rightarrow> 'a list \<Rightarrow> nat option" where
  "findIndex p [] = None"
| "findIndex p (x # xs) =
     (if p x then Some 0 else map_option Suc (findIndex p xs))"

definition activeQueue :: "player \<Rightarrow> track list" where
  "activeQueue s = (if isShuffleActive s then shuffledQueue s else currentQueue s)"

text \<open>
  \<open>playNext\<close> and \<open>playPrevious\<close>. Both index the active queue inside its bounds:
  \<open>nextIndex\<close> is below the length or reset to 0 in a queue that is not empty, and
  \<open>prevIndex = (currentIndex - 1 + length) % length\<close>, written \<open>currentIndex + length - 1\<close>
  over the naturals, where the length is positive.
\<close>

definition playNext :: "track list \<Rightarrow> (nat \<Rightarrow> nat) \<Rightarrow> player \<Rightarrow> player" where
  "playNext songs rnd s =
     (case currentSong s of
        None \<Rightarrow> s
      | Some c \<Rightarrow>
          if activeQueue s = [] then s
          else
            (case findIndex (\<lambda>x. song_id x = song_id c) (activeQueue s) of
               None \<Rightarrow> s
             | Some currentIndex \<Rightarrow>
                 let nextIndex = currentIndex + 1 in
                 if nextIndex \<ge> length (activeQueue s)
                 then (if repeatMode s = RepeatAll
                       then playSong songs rnd (activeQueue s ! 0) (Some (currentQueue s)) s
                       else s\<lparr>isPlaying := False\<rparr>)
                 else playSong songs rnd (activeQueue s ! nextIndex) (Some (currentQueue s)) s))"

definition playPrevious :: "track list \<Rightarrow> (nat \<Rightarrow> nat) \<Rightarrow> player \<Rightarrow> player" where
  "playPrevious songs rnd s =
     (case currentSong s of
        None \<Rightarrow> s
      | Some c \<Rightarrow>
          if activeQueue s = [] then s
          else
            (case findIndex (\<lambda>x. song_id x = song_id c) (activeQueue s) of
               None \<Rightarrow> s
             | Some currentIndex \<Rightarrow>
                 let prevIndex = (currentIndex + length (activeQueue s) - 1) mod length (activeQueue s)
                 in playSong songs rnd (activeQueue s ! prevIndex) (Some (currentQueue s)) s))"

definition toggleShuffle :: "(nat \<Rightarrow> nat) \<Rightarrow> player \<Rightarrow> player" where
  "toggleShuffle rnd s =
     (let newShuffleState = \<not> isShuffleActive s in
      case currentSong s of
        Some c \<Rightarrow>
          if newShuffleState
          then s\<lparr>isShuffleActive := newShuffleState,
                 shuffledQueue := buildShuffledQueue rnd (rngPos s) (currentQueue s) c,
                 rngPos := rngPos s + length (otherSongs (currentQueue s) c)\<rparr>
          else s\<lparr>isShuffleActive := newShuffleState, shuffledQueue := []\<rparr>
      | None \<Rightarrow> s\<lparr>isShuffleActive := newShuffleState, shuffledQueue := []\<rparr>)"

text \<open>\<open>modes[(modes.indexOf(repeatMode) + 1) % 3]\<close> over \<open>['off', 'all', 'one']\<close>.\<close>

fun nextMode :: "repeat_mode \<Rightarrow> repeat_mode" where
  "nextMode RepeatOff = RepeatAll"
| "nextMode RepeatAll = RepeatOne"
| "nextMode RepeatOne = RepeatOff"

definition toggleRepeat :: "player \<Rightarrow> player" where
  "toggleRepeat s = s\<lparr>repeatMode := nextMode (repeatMode s)\<rparr>"

definition seek :: "real \<Rightarrow> player \<Rightarrow> player" where
  "seek time s = s\<lparr>effects := effects s @ [SetCurrentTime time], progress := time\<rparr>"

definition handleTimeUpdate :: "real \<Rightarrow> player \<Rightarrow> player" where
  "handleTimeUpdate t s = s\<lparr>progress := t\<rparr>"

definition handleLoadedMetadata :: "real \<Rightarrow> player \<Rightarrow> player" where
  "handleLoadedMetadata d s = s\<lparr>duration := d\<rparr>"

definition openFullPlayer :: "player \<Rightarrow> player" where
  "openFullPlayer s = s\<lparr>isFullPlayerVisible := True\<rparr>"

definition closeFullPlayer :: "player \<Rightarrow> player" where
  "closeFullPlayer s = s\<lparr>isFullPlayerVisible := False\<rparr>"

section \<open>The operations in the closure of an earlier render\<close>

text \<open>
  Two effects register handlers that outlive the render they were created in. The first
  adds \<open>handleEnded\<close> as the \<open>ended\<close> listener of the audio element; its dependency list is
  \<open>[currentSong, currentQueue, repeatMode, isShuffleActive, shuffledQueue]\<close>. The second
  sets the media-session handlers (\<open>play\<close> and \<open>pause\<close> call \<open>togglePlayPause\<close>,
  \<open>nexttrack\<close> calls \<open>playNext\<close>, \<open>previoustrack\<close> calls \<open>playPrevious\<close>); its list is
  \<open>[currentSong, isPlaying, currentQueue, isShuffleActive, shuffledQueue]\<close>. An effect
  runs again only when one of its dependencies changes, so the handler in place is the
  closure of the last render in which one did, and it reads the hooks and the \<open>songs\<close>
  prop of that render: \<open>isPlaying\<close> and \<open>songs\<close> can be out of date in the \<open>ended\<close>
  listener, \<open>repeatMode\<close> and \<open>songs\<close> in the media-session handlers.

  A \<open>render\<close> is what a closure reads. The operations below take the render \<open>r\<close> they
  read and the current state \<open>s\<close> they update: every \<open>setX(v)\<close> stores a value computed
  from \<open>r\<close> into \<open>s\<close>; \<open>setRecentlyPlayed(prev => ...)\<close> is a functional update and works
  on the history of \<open>s\<close>; the commands to the audio element and the draws from
  \<open>Math.random\<close> happen now, so the trace and \<open>rngPos\<close> are those of \<open>s\<close>. Apart from the
  state read, each definition is the one of the previous section.
\<close>

record render =
  songsProp :: "track list"
  hooks :: player

definition togglePlayPauseIn :: "render \<Rightarrow> player \<Rightarrow> player" where
  "togglePlayPauseIn r s =
     (case currentSong (hooks r) of
        None \<Rightarrow> s
      | Some c \<Rightarrow>
          s\<lparr>isPlaying := \<not> isPlaying (hooks r),
            effects := effects s @ [if isPlaying (hooks r) then Pause else Play]\<rparr>)"

definition setQueuesIn :: "render \<Rightarrow> (nat \<Rightarrow> nat) \<Rightarrow> track \<Rightarrow> track list option \<Rightarrow> player \<Rightarrow> player" where
  "setQueuesIn r rnd songToPlay queue s =
     (case queue of
        None \<Rightarrow> s
      | Some q \<Rightarrow>
          if isShuffleActive (hooks r)
          then s\<lparr>currentQueue := q,
                 shuffledQueue := buildShuffledQueue rnd (rngPos s) q songToPlay,
                 rngPos := rngPos s + length (otherSongs q songToPlay)\<rparr>
          else s\<lparr>currentQueue := q\<rparr>)"

definition playSongIn :: "render \<Rightarrow> (nat \<Rightarrow> nat) \<Rightarrow> track \<Rightarrow> track list option \<Rightarrow> player \<Rightarrow> player" where
  "playSongIn r rnd songToPlay queue s =
     (let s1 = setQueuesIn r rnd songToPlay queue s in
      case resolveSong (songsProp r) songToPlay of
        None \<Rightarrow>
          s1\<lparr>effects := effects s1 @ [Alert],
             recentlyPlayed := filter (\<lambda>x. song_id x \<noteq> song_id songToPlay) (recentlyPlayed s1)\<rparr>
      | Some song \<Rightarrow>
          if (case currentSong (hooks r) of None \<Rightarrow> False | Some c \<Rightarrow> song_id c = song_id song)
          then (togglePlayPauseIn r s1)\<lparr>recentlyPlayed := pushHistory song (recentlyPlayed s1)\<rparr>
          else
            (case song_file song of
               None \<Rightarrow> s1\<lparr>currentSong := Some song, effects := effects s1 @ [TypeError]\<rparr>
             | Some f \<Rightarrow>
                 s1\<lparr>currentSong := Some song,
                    effects := effects s1 @ [SetSrc f, Play],
                    isPlaying := True,
                    recentlyPlayed := pushHistory song (recentlyPlayed s1)\<rparr>))"

definition playNextIn :: "render \<Rightarrow> (nat \<Rightarrow> nat) \<Rightarrow> player \<Rightarrow> player" where
  "playNextIn r rnd s =
     (case currentSong (hooks r) of
        None \<Rightarrow> s
      | Some c \<Rightarrow>
          if activeQueue (hooks r) = [] then s
          else
            (case findIndex (\<lambda>x. song_id x = song_id c) (activeQueue (hooks r)) of
               None \<Rightarrow> s
             | Some currentIndex \<Rightarrow>
                 let nextIndex = currentIndex + 1 in
                 if nextIndex \<ge> length (activeQueue (hooks r))
                 then (if repeatMode (hooks r) = RepeatAll
                       then playSongIn r rnd (activeQueue (hooks r) ! 0) (Some (currentQueue (hooks r))) s
                       else s\<lparr>isPlaying := False\<rparr>)
                 else playSongIn r rnd (activeQueue (hooks r) ! nextIndex)
                        (Some (currentQueue (hooks r))) s))"

definition playPreviousIn :: "render \<Rightarrow> (nat \<Rightarrow> nat) \<Rightarrow> player \<Rightarrow> player" where
  "playPreviousIn r rnd s =
     (case currentSong (hooks r) of
        None \<Rightarrow> s
      | Some c \<Rightarrow>
          if activeQueue (hooks r) = [] then s
          else
            (case findIndex (\<lambda>x. song_id x = song_id c) (activeQueue (hooks r)) of
               None \<Rightarrow> s
             | Some currentIndex \<Rightarrow>
                 let prevIndex = (currentIndex + length (activeQueue (hooks r)) - 1)
                                   mod length (activeQueue (hooks r))
                 in playSongIn r rnd (activeQueue (hooks r) ! prevIndex)
                      (Some (currentQueue (hooks r))) s))"

text \<open>
  \<open>handleEnded\<close>, the \<open>ended\<close> listener: under \<open>'one'\<close> it sets \<open>currentTime = 0\<close> and plays,
  otherwise it calls \<open>playNext\<close>; all in the render \<open>r\<close> that registered it.
\<close>

definition handleEnded :: "render \<Rightarrow> (nat \<Rightarrow> nat) \<Rightarrow> player \<Rightarrow> player" where
  "handleEnded r rnd s =
     (if repeatMode (hooks r) = RepeatOne
      then s\<lparr>effects := effects s @ [SetCurrentTime 0, Play]\<rparr>
      else playNextIn r rnd s)"

text \<open>
  The dependency lists. An effect runs again after a render in which its list differs
  from the one of the render before.
\<close>

definition endedDeps :: "player \<Rightarrow> track option \<times> track list \<times> repeat_mode \<times> bool \<times> track list" where
  "endedDeps s = (currentSong s, currentQueue s, repeatMode s, isShuffleActive s, shuffledQueue s)"

definition mediaDeps :: "player \<Rightarrow> track option \<times> bool \<times> track list \<times> bool \<times> track list" where
  "mediaDeps s = (currentSong s, isPlaying s, currentQueue s, isShuffleActive s, shuffledQueue s)"

section \<open>The application around the provider\<close>

text \<open>
  \<open>AppWrapper\<close> holds the library (\<open>const [songs, setSongs] = useState([])\<close>) and hands it
  to the provider; \<open>addSong\<close> appends. The views call the provider's operations:
  \<open>Songs\<close> calls \<open>playSong(song, songs)\<close> for a song of the library, \<open>Home\<close> calls
  \<open>playSong(song, recentlyPlayed)\<close> for an entry of the history, the full and mini player
  call the transport operations; these are closures of the current render. The \<open>audio\<close>
  element raises \<open>ended\<close>, \<open>timeupdate\<close> and \<open>loadedmetadata\<close>, and the operating system
  raises the media-session actions; \<open>ended\<close> and the media-session actions run the closures
  that the two effects registered last. The state of the application is the library,
  the hooks, and these two registrations. The media-session handlers are set only in a
  render with a current song, so there are none before the first song plays.
\<close>

record app =
  library :: "track list"
  session :: player
  endedListener :: render
  mediaHandlers :: "render option"

datatype event =
    SaveMetadata nat string string handle
  | ClickSong nat
  | ClickRecent nat
  | PressNext
  | PressPrevious
  | PressPlayPause
  | PressShuffle
  | PressRepeat
  | DragSeek real
  | AudioEnded
  | AudioTimeUpdate real
  | AudioLoadedMetadata real
  | OpenPlayer
  | ClosePlayer
  | MediaPlay
  | MediaPause
  | MediaNextTrack
  | MediaPreviousTrack
  | EffectsRerun

text \<open>
  \<open>handleSaveMetadata\<close> builds \<open>{id: Date.now(), title, artist, albumArtUrl: placeholder,
  file: editingFile}\<close>. \<open>ClickSong i\<close> and \<open>ClickRecent i\<close> are clicks on the \<open>i\<close>-th list
  item; a list has no item beyond its length, so such an event changes nothing.
\<close>

definition newSong :: "nat \<Rightarrow> string \<Rightarrow> string \<Rightarrow> handle \<Rightarrow> track" where
  "newSong now t a f =
     \<lparr>song_id = now, title = t, artist = a,
      albumArtUrl = ''https://placehold.co/64x64/png'', song_file = Some f\<rparr>"

text \<open>What the handler of an event does to the library and to the hooks.\<close>

fun libraryAfter :: "event \<Rightarrow> app \<Rightarrow> track list" where
  "libraryAfter (SaveMetadata now t a f) ap = library ap @ [newSong now t a f]"
| "libraryAfter e ap = library ap"

definition viaMedia :: "app \<Rightarrow> (render \<Rightarrow> player \<Rightarrow> player) \<Rightarrow> player" where
  "viaMedia ap h = (case mediaHandlers ap of None \<Rightarrow> session ap | Some r \<Rightarrow> h r (session ap))"

fun sessionAfter :: "(nat \<Rightarrow> nat) \<Rightarrow> event \<Rightarrow> app \<Rightarrow> player" where
  "sessionAfter rnd (SaveMetadata now t a f) ap = session ap"
| "sessionAfter rnd (ClickSong i) ap =
     (if i < length (library ap)
      then playSong (library ap) rnd (library ap ! i) (Some (library ap)) (session ap)
      else session ap)"
| "sessionAfter rnd (ClickRecent i) ap =
     (if i < length (recentlyPlayed (session ap))
      then playSong (library ap) rnd (recentlyPlayed (session ap) ! i)
             (Some (recentlyPlayed (session ap))) (session ap)
      else session ap)"
| "sessionAfter rnd PressNext ap = playNext (library ap) rnd (session ap)"
| "sessionAfter rnd PressPrevious ap = playPrevious (library ap) rnd (session ap)"
| "sessionAfter rnd PressPlayPause ap = togglePlayPause (session ap)"
| "sessionAfter rnd PressShuffle ap = toggleShuffle rnd (session ap)"
| "sessionAfter rnd PressRepeat ap = toggleRepeat (session ap)"
| "sessionAfter rnd (DragSeek t) ap = seek t (session ap)"
| "sessionAfter rnd AudioEnded ap = handleEnded (endedListener ap) rnd (session ap)"
| "sessionAfter rnd (AudioTimeUpdate t) ap = handleTimeUpdate t (session ap)"
| "sessionAfter rnd (AudioLoadedMetadata d) ap = handleLoadedMetadata d (session ap)"
| "sessionAfter rnd OpenPlayer ap = openFullPlayer (session ap)"
| "sessionAfter rnd ClosePlayer ap = closeFullPlayer (session ap)"
| "sessionAfter rnd MediaPlay ap = viaMedia ap togglePlayPauseIn"
| "sessionAfter rnd MediaPause ap = viaMedia ap togglePlayPauseIn"
| "sessionAfter rnd MediaNextTrack ap = viaMedia ap (\<lambda>r. playNextIn r rnd)"
| "sessionAfter rnd MediaPreviousTrack ap = viaMedia ap (\<lambda>r. playPreviousIn r rnd)"
| "sessionAfter rnd EffectsRerun ap = session ap"

text \<open>
  The render after an event. An effect whose dependency list has changed registers the
  closures of the new render; otherwise the registration stays. React compares
  dependencies by reference, the model by value: a dependency that is a new array with
  the content of the old one (\<open>playSong\<close> builds a new shuffled queue on every call, and
  the history handed over as the queue is a new array after every play) also makes both
  effects run again. That re-run is the event \<open>EffectsRerun\<close>; the model lets it occur at
  any time, which only adds states to those the program reaches.
\<close>

definition rerender :: "bool \<Rightarrow> app \<Rightarrow> track list \<Rightarrow> player \<Rightarrow> app" where
  "rerender forced ap lib s =
     \<lparr>library = lib,
      session = s,
      endedListener =
        (if forced \<or> endedDeps s \<noteq> endedDeps (session ap)
         then \<lparr>songsProp = lib, hooks = s\<rparr>
         else endedListener ap),
      mediaHandlers =
        (if (forced \<or> mediaDeps s \<noteq> mediaDeps (session ap)) \<and> currentSong s \<noteq> None
         then Some \<lparr>songsProp = lib, hooks = s\<rparr>
         else mediaHandlers ap)\<rparr>"

definition step :: "(nat \<Rightarrow> nat) \<Rightarrow> event \<Rightarrow> app \<Rightarrow> app" where
  "step rnd e ap = rerender (e = EffectsRerun) ap (libraryAfter e ap) (sessionAfter rnd e ap)"

fun run :: "(nat \<Rightarrow> nat) \<Rightarrow> event list \<Rightarrow> app \<Rightarrow> app" where
  "run rnd [] ap = ap"
| "run rnd (e # es) ap = run rnd es (step rnd e ap)"

text \<open>
  The initial values of the hooks. The history is what localStorage holds: nothing, or
  what an earlier session saved, entries without a file. \<open>storable\<close> is what a saved
  history looks like; \<open>reachable_history_storable\<close> below shows that every session saves
  such a history again. The first render registers the \<open>ended\<close> listener and, having no
  current song, no media-session handlers.
\<close>

definition storable :: "track list \<Rightarrow> bool" where
  "storable h =
     (list_all (\<lambda>x. song_file x = None) h \<and> distinct (map song_id h) \<and> length h \<le> 50)"

definition initPlayer :: "track list \<Rightarrow> player" where
  "initPlayer h =
     \<lparr>currentSong = None, isPlaying = False, progress = 0, duration = 0,
      isFullPlayerVisible = False, currentQueue = [], shuffledQueue = [],
      isShuffleActive = False, repeatMode = RepeatOff, recentlyPlayed = h,
      rngPos = 0, effects = []\<rparr>"

definition initApp :: "track list \<Rightarrow> app" where
  "initApp h =
     \<lparr>library = [], session = initPlayer h,
      endedListener = \<lparr>songsProp = [], hooks = initPlayer h\<rparr>,
      mediaHandlers = None\<rparr>"

inductive reachable :: "(nat \<Rightarrow> nat) \<Rightarrow> app \<Rightarrow> bool" for rnd :: "nat \<Rightarrow> nat" where
  reachable_init: "storable h \<Longrightarrow> reachable rnd (initApp h)"
| reachable_step: "reachable rnd ap \<Longrightarrow> reachable rnd (step rnd e ap)"

text \<open>The stored form of the history: every entry without its file.\<close>

definition storableRecentlyPlayed :: "player \<Rightarrow> track list" where
  "storableRecentlyPlayed s = map (\<lambda>song. song\<lparr>song_file := None\<rparr>) (recentlyPlayed s)"

text \<open>
  What holds in every reachable state: library entries carry a file; the history is
  free of duplicate ids and has at most 50 entries; a track with a file, wherever it is
  queued or remembered, has its id in the library; the current song has its id in the
  library and is the first entry of the history.
\<close>

definition knownIfLive :: "track list \<Rightarrow> track \<Rightarrow> bool" where
  "knownIfLive lib x = (song_file x \<noteq> None \<longrightarrow> song_id x \<in> song_id ` set lib)"

definition sessionInv :: "track list \<Rightarrow> player \<Rightarrow> bool" where
  "sessionInv lib s =
     ((\<forall>x \<in> set lib. song_file x \<noteq> None) \<and>
      distinct (map song_id (recentlyPlayed s)) \<and>
      length (recentlyPlayed s) \<le> 50 \<and>
      (\<forall>x \<in> set (recentlyPlayed s). knownIfLive lib x) \<and>
      (\<forall>x \<in> set (currentQueue s). knownIfLive lib x) \<and>
      (\<forall>x \<in> set (shuffledQueue s). knownIfLive lib x) \<and>
      (case currentSong s of
         None \<Rightarrow> True
       | Some c \<Rightarrow>
           song_id c \<in> song_id ` set lib \<and>
           (case recentlyPlayed s of [] \<Rightarrow> False | h # _ \<Rightarrow> song_id h = song_id c)))"

text \<open>
  What a registered closure \<open>r\<close> has in common with the current state: its library is
  part of the current one, the hooks that are in both dependency lists are the current
  ones, and the current song has its id in the closure's library. Media-session
  handlers are registered only once a song is current.
\<close>

definition closesOver :: "track list \<Rightarrow> player \<Rightarrow> render \<Rightarrow> bool" where
  "closesOver lib s r =
     (set (songsProp r) \<subseteq> set lib \<and>
      currentSong (hooks r) = currentSong s \<and>
      currentQueue (hooks r) = currentQueue s \<and>
      shuffledQueue (hooks r) = shuffledQueue s \<and>
      isShuffleActive (hooks r) = isShuffleActive s \<and>
      (case currentSong s of None \<Rightarrow> True | Some c \<Rightarrow> song_id c \<in> song_id ` set (songsProp r)))"

definition appInv :: "app \<Rightarrow> bool" where
  "appInv ap =
     (sessionInv (library ap) (session ap) \<and>
      closesOver (library ap) (session ap) (endedListener ap) \<and>
      (case mediaHandlers ap of
         None \<Rightarrow> True
       | Some r \<Rightarrow> currentSong (session ap) \<noteq> None \<and> closesOver (library ap) (session ap) r))"

section \<open>Names used in the statements\<close>

text \<open>
  \<open>indexOfCurrent\<close> is the value of \<open>currentIndex\<close> in \<open>playNext\<close> and \<open>playPrevious\<close>:
  the position of the current song, by id, in the active queue.
\<close>

definition indexOfCurrent :: "player \<Rightarrow> nat option" where
  "indexOfCurrent s =
     (case currentSong s of
        None \<Rightarrow> None
      | Some c \<Rightarrow> findIndex (\<lambda>x. song_id x = song_id c) (activeQueue s))"

text \<open>Three randomness sources and a few songs for the concrete runs.\<close>

definition rndZero :: "nat \<Rightarrow> nat" where
  "rndZero i = 0"

definition rndOne :: "nat \<Rightarrow> nat" where
  "rndOne i = 1"

definition rndId :: "nat \<Rightarrow> nat" where
  "rndId i = i"

definition trackA :: track where
  "trackA = newSong 1 ''A'' ''artist'' 11"

definition trackB :: track where
  "trackB = newSong 2 ''B'' ''artist'' 12"

definition trackC :: track where
  "trackC = newSong 3 ''C'' ''artist'' 13"

definition staleD :: track where
  "staleD = \<lparr>song_id = 4, title = ''D'', artist = ''artist'',
             albumArtUrl = ''https://placehold.co/64x64/png'', song_file = None\<rparr>"

text \<open>A session with the queue [A, B, C] that plays A, the first entry.\<close>

definition firstOfThree :: player where
  "firstOfThree = (initPlayer [])\<lparr>currentSong := Some trackA, isPlaying := True,
       currentQueue := [trackA, trackB, trackC]\<rparr>"

text \<open>
  Runs of the application from its start. \<open>singleApp\<close>: C is imported and played from the
  Songs page, repeat is pressed once (\<open>'all'\<close>). \<open>beforeStaleClick\<close>: the stored history holds
  D from an earlier session; C is imported and played, shuffle and repeat are pressed.
  \<open>staleClickApp\<close>: then D, the second entry of the Recently Played list, is clicked.
  \<open>threeShuffled\<close>: A, B and C are imported, A is played, shuffle is pressed.
  \<open>lastOfThreeApp\<close>: A, B and C are imported and C, the last one, is played;
  \<open>lastOfThreeAll\<close>: then repeat is pressed once (\<open>'all'\<close>). \<open>oneShuffled\<close>: C is imported and
  played, shuffle is pressed. \<open>staleEndedApp\<close>: C is imported and played, paused, repeat
  is pressed once while paused, and play is resumed.
\<close>

definition singleApp :: app where
  "singleApp = run rndZero [SaveMetadata 3 ''C'' ''artist'' 13, ClickSong 0, PressRepeat] (initApp [])"

definition beforeStaleClick :: app where
  "beforeStaleClick =
     run rndZero [SaveMetadata 3 ''C'' ''artist'' 13, ClickSong 0, PressShuffle, PressRepeat]
       (initApp [staleD])"

definition staleClickApp :: app where
  "staleClickApp = step rndZero (ClickRecent 1) beforeStaleClick"

definition threeShuffled :: app where
  "threeShuffled =
     run rndId [SaveMetadata 1 ''A'' ''artist'' 11, SaveMetadata 2 ''B'' ''artist'' 12,
                SaveMetadata 3 ''C'' ''artist'' 13, ClickSong 0, PressShuffle] (initApp [])"

definition lastOfThreeApp :: app where
  "lastOfThreeApp =
     run rndZero [SaveMetadata 1 ''A'' ''artist'' 11, SaveMetadata 2 ''B'' ''artist'' 12,
                  SaveMetadata 3 ''C'' ''artist'' 13, ClickSong 2] (initApp [])"

definition lastOfThreeAll :: app where
  "lastOfThreeAll = step rndZero PressRepeat lastOfThreeApp"

definition oneShuffled :: app where
  "oneShuffled = run rndZero [SaveMetadata 3 ''C'' ''artist'' 13, ClickSong 0, PressShuffle] (initApp [])"

definition staleEndedApp :: app where
  "staleEndedApp =
     run rndZero [SaveMetadata 3 ''C'' ''artist'' 13, ClickSong 0, PressPlayPause, PressRepeat,
                  PressPlayPause] (initApp [])"

text \<open>
  The shuffled queue is anchored when, under shuffle and with a current song, its first
  entry has the current song's id.
\<close>

definition anchored :: "player \<Rightarrow> bool" where
  "anchored s =
     (case currentSong s of
        None \<Rightarrow> True
      | Some c \<Rightarrow>
          \<not> isShuffleActive s \<or>
          (case shuffledQueue s of [] \<Rightarrow> False | h # _ \<Rightarrow> song_id h = song_id c))"

text \<open>
  The current song is in the queues: its id is in the plain queue and, under shuffle, in
  the shuffled queue; the shuffled queue has only ids of the plain queue and is empty
  when shuffle is off.
\<close>

definition queuesInv :: "player \<Rightarrow> bool" where
  "queuesInv s =
     ((case currentSong s of
         None \<Rightarrow> True
       | Some c \<Rightarrow>
           song_id c \<in> song_id ` set (currentQueue s) \<and>
           (isShuffleActive s \<longrightarrow> song_id c \<in> song_id ` set (shuffledQueue s))) \<and>
      (if isShuffleActive s
       then song_id ` set (shuffledQueue s) \<subseteq> song_id ` set (currentQueue s)
       else shuffledQueue s = []))"

section \<open>The shuffle permutes\<close>

lemma shuffleLoop_mset:
  "currentIndex \<le> length array \<Longrightarrow> mset (shuffleLoop rnd pos currentIndex array) = mset array"
proof (induction currentIndex arbitrary: pos array)
  case 0
  then show ?case by simp
next
  case (Suc n)
  let ?r = "rnd pos mod Suc n"
  have r: "?r < length array" and n: "n < length array"
    using Suc.prems by (auto intro: less_le_trans [OF mod_less_divisor])
  have "mset (array[n := array ! ?r, ?r := array ! n]) = mset array"
    using r n by (rule mset_swap)
  moreover have "n \<le> length (array[n := array ! ?r, ?r := array ! n])"
    using n by simp
  ultimately show ?case
    using Suc.IH [of "array[n := array ! ?r, ?r := array ! n]" "Suc pos"]
    by (simp add: Let_def)
qed

lemma shuffleArray_mset: "mset (shuffleArray rnd pos array) = mset array"
  by (simp add: shuffleArray_def shuffleLoop_mset)

lemma shuffleArray_length: "length (shuffleArray rnd pos array) = length array"
  using shuffleArray_mset [of rnd pos array] by (metis size_mset)

lemma shuffleArray_set: "set (shuffleArray rnd pos array) = set array"
  using shuffleArray_mset [of rnd pos array] by (metis set_mset_mset)




section \<open>Facts about \<open>findIndex\<close>\<close>

lemma findIndex_Some_less: "findIndex p xs = Some i \<Longrightarrow> i < length xs"
  by (induction xs arbitrary: i) (auto split: if_splits)

lemma findIndex_Some_nth: "findIndex p xs = Some i \<Longrightarrow> p (xs ! i)"
  by (induction xs arbitrary: i) (auto split: if_splits)

lemma findIndex_None_iff: "findIndex p xs = None \<longleftrightarrow> (\<forall>x \<in> set xs. \<not> p x)"
  by (induction xs) auto

lemma indexOfCurrentD:
  "indexOfCurrent s = Some i \<Longrightarrow>
     \<exists>c. currentSong s = Some c \<and> findIndex (\<lambda>x. song_id x = song_id c) (activeQueue s) = Some i
       \<and> i < length (activeQueue s) \<and> activeQueue s \<noteq> []"
  by (auto simp: indexOfCurrent_def split: option.splits dest: findIndex_Some_less)

section \<open>The shuffled queue\<close>

text \<open>
  Claim C6. For every queue, every anchor and every randomness source, the shuffled
  queue starts with the anchor, the rest is a permutation of the queue without the
  entries that have the anchor's id, and the length is that of the queue when exactly one
  entry of the queue has the anchor's id.
\<close>

theorem buildShuffledQueue_anchor_then_permutation:
  "hd (buildShuffledQueue rnd pos q anchor) = anchor \<and>
   mset (tl (buildShuffledQueue rnd pos q anchor)) =
     filter_mset (\<lambda>s. song_id s \<noteq> song_id anchor) (mset q) \<and>
   (length (filter (\<lambda>s. song_id s = song_id anchor) q) = 1 \<longrightarrow>
      length (buildShuffledQueue rnd pos q anchor) = length q)"
proof -
  have "length (filter (\<lambda>s. song_id s = song_id anchor) q) + length (otherSongs q anchor) = length q"
    unfolding otherSongs_def by (rule sum_length_filter_compl)
  then show ?thesis
    by (simp add: buildShuffledQueue_def shuffleArray_mset shuffleArray_length otherSongs_def)
qed

theorem buildShuffledQueue_anchor_then_permutation_witness:
  "length (filter (\<lambda>s. song_id s = song_id trackB) [trackA, trackB, trackC]) = 1 \<and>
   buildShuffledQueue rndId 0 [trackA, trackB, trackC] trackB = [trackB, trackC, trackA] \<and>
   length (buildShuffledQueue rndId 0 [trackA, trackB, trackC] trackB) = length [trackA, trackB, trackC]"
  using buildShuffledQueue_anchor_then_permutation [of rndId 0 "[trackA, trackB, trackC]" trackB]
  by (simp add: buildShuffledQueue_def shuffleArray_def otherSongs_def
      trackA_def trackB_def trackC_def newSong_def rndId_def)

section \<open>Playing a stale track\<close>

text \<open>
  Claim C3. When \<open>playSong\<close> is called on a track that has no file and whose id is not
  in the library, the history afterwards holds no entry with that id, the only effect is
  the alert (so the audio element gets neither a source nor a play command), and the
  current song and the playing flag are as before.
\<close>

theorem playSong_stale_evicts_and_aborts:
  assumes "song_file t = None" and "song_id t \<notin> song_id ` set songs"
  shows "song_id t \<notin> song_id ` set (recentlyPlayed (playSong songs rnd t q s)) \<and>
         effects (playSong songs rnd t q s) = effects s @ [Alert] \<and>
         currentSong (playSong songs rnd t q s) = currentSong s \<and>
         isPlaying (playSong songs rnd t q s) = isPlaying s"
proof -
  have "find (\<lambda>x. song_id x = song_id t) songs = None"
    using assms(2) by (auto simp: find_None_iff image_iff)
  then have "resolveSong songs t = None"
    using assms(1) by (simp add: resolveSong_def)
  then show ?thesis
    by (auto simp: playSong_def setQueues_def Let_def split: option.splits)
qed

theorem playSong_stale_evicts_and_aborts_witness:
  "song_file staleD = None \<and> song_id staleD \<notin> song_id ` set [trackA] \<and>
   recentlyPlayed (playSong [trackA] rndZero staleD (Some [trackA, staleD]) (initPlayer [trackA, staleD])) = [trackA] \<and>
   effects (playSong [trackA] rndZero staleD (Some [trackA, staleD]) (initPlayer [trackA, staleD])) = [Alert] \<and>
   currentSong (playSong [trackA] rndZero staleD (Some [trackA, staleD]) (initPlayer [trackA, staleD])) = None"
  using playSong_stale_evicts_and_aborts
    [of staleD "[trackA]" rndZero "Some [trackA, staleD]" "initPlayer [trackA, staleD]"]
  by (simp add: playSong_def setQueues_def resolveSong_def initPlayer_def
      trackA_def staleD_def newSong_def)

section \<open>Facts about the operations\<close>

lemma setQueues_fields:
  "currentSong (setQueues rnd t q s) = currentSong s"
  "isPlaying (setQueues rnd t q s) = isPlaying s"
  "recentlyPlayed (setQueues rnd t q s) = recentlyPlayed s"
  "effects (setQueues rnd t q s) = effects s"
  "repeatMode (setQueues rnd t q s) = repeatMode s"
  "isShuffleActive (setQueues rnd t q s) = isShuffleActive s"
  by (simp_all add: setQueues_def split: option.splits)

lemma setQueues_Some:
  "currentQueue (setQueues rnd t (Some q) s) = q"
  "shuffledQueue (setQueues rnd t (Some q) s) =
     (if isShuffleActive s then buildShuffledQueue rnd (rngPos s) q t else shuffledQueue s)"
  "rngPos (setQueues rnd t (Some q) s) =
     (if isShuffleActive s then rngPos s + length (otherSongs q t) else rngPos s)"
  by (simp_all add: setQueues_def)

lemma playSong_queues:
  "currentQueue (playSong songs rnd t q s) = currentQueue (setQueues rnd t q s)"
  "shuffledQueue (playSong songs rnd t q s) = shuffledQueue (setQueues rnd t q s)"
  "rngPos (playSong songs rnd t q s) = rngPos (setQueues rnd t q s)"
  "isShuffleActive (playSong songs rnd t q s) = isShuffleActive s"
  "repeatMode (playSong songs rnd t q s) = repeatMode s"
  by (simp_all add: playSong_def Let_def togglePlayPause_def setQueues_fields split: option.splits)

lemma resolveSong_id: "resolveSong songs t = Some song \<Longrightarrow> song_id song = song_id t"
  by (auto simp: resolveSong_def find_Some_iff split: if_splits)


lemma resolveSong_stale:
  "song_file t = None \<Longrightarrow> song_id t \<notin> song_id ` set songs \<Longrightarrow> resolveSong songs t = None"
  by (auto simp: resolveSong_def find_None_iff image_iff)


lemma playPrevious_found:
  "indexOfCurrent s = Some i \<Longrightarrow>
   playPrevious songs rnd s =
     playSong songs rnd (activeQueue s ! ((i + length (activeQueue s) - 1) mod length (activeQueue s)))
       (Some (currentQueue s)) s"
  by (auto simp: playPrevious_def indexOfCurrent_def Let_def split: option.splits)


lemma activeQueue_repeatMode: "activeQueue (s\<lparr>repeatMode := m\<rparr>) = activeQueue s"
  by (simp add: activeQueue_def)

lemma indexOfCurrent_repeatMode: "indexOfCurrent (s\<lparr>repeatMode := m\<rparr>) = indexOfCurrent s"
  by (simp add: indexOfCurrent_def activeQueue_repeatMode split: option.splits)

lemma playSong_repeatMode:
  "playSong songs rnd t q (s\<lparr>repeatMode := m\<rparr>) = (playSong songs rnd t q s)\<lparr>repeatMode := m\<rparr>"
  by (simp add: playSong_def Let_def setQueues_def togglePlayPause_def split: option.splits)

text \<open>A closure of the current render runs the operation of the views.\<close>

lemma togglePlayPauseIn_current:
  "togglePlayPauseIn \<lparr>songsProp = songs, hooks = s\<rparr> s = togglePlayPause s"
  by (simp add: togglePlayPauseIn_def togglePlayPause_def split: option.splits)

lemma playSongIn_current:
  "playSongIn \<lparr>songsProp = songs, hooks = s\<rparr> rnd t q s = playSong songs rnd t q s"
  by (simp add: playSongIn_def playSong_def setQueuesIn_def setQueues_def
      togglePlayPauseIn_def togglePlayPause_def Let_def split: option.splits)

lemma playNextIn_current:
  "playNextIn \<lparr>songsProp = songs, hooks = s\<rparr> rnd s = playNext songs rnd s"
  by (simp add: playNextIn_def playNext_def playSongIn_current Let_def split: option.splits)

lemma playPreviousIn_current:
  "playPreviousIn \<lparr>songsProp = songs, hooks = s\<rparr> rnd s = playPrevious songs rnd s"
  by (simp add: playPreviousIn_def playPrevious_def playSongIn_current Let_def split: option.splits)

lemmas run_defs = initApp_def initPlayer_def playSong_def setQueues_def
  resolveSong_def togglePlayPause_def pushHistory_def playNext_def playPrevious_def
  toggleShuffle_def toggleRepeat_def buildShuffledQueue_def shuffleArray_def otherSongs_def
  activeQueue_def indexOfCurrent_def newSong_def Let_def
  step_def rerender_def viaMedia_def endedDeps_def mediaDeps_def handleEnded_def
  playSongIn_def setQueuesIn_def togglePlayPauseIn_def playNextIn_def playPreviousIn_def

lemmas example_defs = singleApp_def beforeStaleClick_def staleClickApp_def threeShuffled_def
  lastOfThreeApp_def lastOfThreeAll_def oneShuffled_def staleEndedApp_def
  firstOfThree_def trackA_def trackB_def trackC_def staleD_def
  rndZero_def rndOne_def rndId_def



lemma beforeStaleClick_library: "library beforeStaleClick = [trackC]"
  by (simp add: run_defs example_defs)

lemma beforeStaleClick_session:
  "session beforeStaleClick =
     \<lparr>currentSong = Some trackC, isPlaying = True, progress = 0, duration = 0,
      isFullPlayerVisible = False, currentQueue = [trackC],
      shuffledQueue = [trackC], isShuffleActive = True,
      repeatMode = RepeatAll, recentlyPlayed = [trackC, staleD], rngPos = 0,
      effects = [SetSrc 13, Play]\<rparr>"
  by (simp add: run_defs example_defs)

lemma staleClickApp_session:
  "session staleClickApp =
     \<lparr>currentSong = Some trackC, isPlaying = True, progress = 0, duration = 0,
      isFullPlayerVisible = False, currentQueue = [trackC, staleD],
      shuffledQueue = [staleD, trackC], isShuffleActive = True,
      repeatMode = RepeatAll, recentlyPlayed = [trackC], rngPos = 1,
      effects = [SetSrc 13, Play, Alert]\<rparr>"
  by (simp add: run_defs example_defs)

lemma singleApp_library: "library singleApp = [trackC]"
  by (simp add: run_defs example_defs)

lemma singleApp_session:
  "session singleApp =
     \<lparr>currentSong = Some trackC, isPlaying = True, progress = 0, duration = 0,
      isFullPlayerVisible = False, currentQueue = [trackC],
      shuffledQueue = [], isShuffleActive = False,
      repeatMode = RepeatAll, recentlyPlayed = [trackC], rngPos = 0,
      effects = [SetSrc 13, Play]\<rparr>"
  by (simp add: run_defs example_defs)

lemma lastOfThreeApp_library: "library lastOfThreeApp = [trackA, trackB, trackC]"
  by (simp add: run_defs example_defs)


lemma lastOfThreeAll_library: "library lastOfThreeAll = [trackA, trackB, trackC]"
  by (simp add: lastOfThreeAll_def lastOfThreeApp_library step_def rerender_def)


lemma lastOfThreeAll_mediaHandlers:
  "mediaHandlers lastOfThreeAll =
     Some \<lparr>songsProp = [trackA, trackB, trackC], hooks = session lastOfThreeApp\<rparr>"
  by (simp add: run_defs example_defs)

lemma oneShuffled_library: "library oneShuffled = [trackC]"
  by (simp add: run_defs example_defs)


lemma staleEndedApp_library: "library staleEndedApp = [trackC]"
  by (simp add: run_defs example_defs)

lemma staleEndedApp_session:
  "session staleEndedApp =
     \<lparr>currentSong = Some trackC, isPlaying = True, progress = 0, duration = 0,
      isFullPlayerVisible = False, currentQueue = [trackC],
      shuffledQueue = [], isShuffleActive = False,
      repeatMode = RepeatAll, recentlyPlayed = [trackC], rngPos = 0,
      effects = [SetSrc 13, Play, Pause, Play]\<rparr>"
  by (simp add: run_defs example_defs)

lemma staleEndedApp_endedListener:
  "endedListener staleEndedApp =
     \<lparr>songsProp = [trackC], hooks = (session staleEndedApp)\<lparr>isPlaying := False,
        effects := [SetSrc 13, Play, Pause]\<rparr>\<rparr>"
  by (simp add: run_defs example_defs)

section \<open>The current song is not in the active queue\<close>

text \<open>
  When there is a current song and no entry of the active queue has its id, \<open>playNext\<close>
  returns at \<open>if (currentIndex === -1) return\<close>: the whole state is as before, and
  \<open>isPlaying\<close> keeps its value. No run of the application reaches such a state
  (\<open>reachable_current_found\<close> below), so this branch is never taken.
\<close>

lemma playNext_not_found_is_noop:
  "currentSong s = Some c \<Longrightarrow> indexOfCurrent s = None \<Longrightarrow> playNext songs rnd s = s"
  by (simp add: playNext_def indexOfCurrent_def)

section \<open>A stale track given with a queue\<close>

text \<open>
  Claim C9. \<open>playSong\<close> on a stale track with an originating queue is not atomic: when
  it returns, the queue is the originating queue and, under shuffle, the shuffled queue
  is the stale track followed by the shuffled rest of that queue, although nothing is
  played: the only effect is the alert, and the current song and the playing flag are as
  before.
\<close>

theorem playSong_stale_keeps_queue_updates:
  assumes "song_file t = None" and "song_id t \<notin> song_id ` set songs"
  shows "currentQueue (playSong songs rnd t (Some q) s) = q \<and>
         (isShuffleActive s \<longrightarrow>
            shuffledQueue (playSong songs rnd t (Some q) s) = t # shuffleArray rnd (rngPos s) (otherSongs q t)) \<and>
         effects (playSong songs rnd t (Some q) s) = effects s @ [Alert] \<and>
         currentSong (playSong songs rnd t (Some q) s) = currentSong s \<and>
         isPlaying (playSong songs rnd t (Some q) s) = isPlaying s"
  using resolveSong_stale [OF assms]
  by (simp add: playSong_queues setQueues_Some buildShuffledQueue_def)
     (simp add: playSong_def Let_def setQueues_fields)

theorem playSong_stale_keeps_queue_updates_witness:
  "song_file staleD = None \<and> song_id staleD \<notin> song_id ` set (library beforeStaleClick) \<and>
   isShuffleActive (session beforeStaleClick) \<and>
   currentQueue (playSong (library beforeStaleClick) rndZero staleD (Some [trackC, staleD])
     (session beforeStaleClick)) = [trackC, staleD] \<and>
   shuffledQueue (playSong (library beforeStaleClick) rndZero staleD (Some [trackC, staleD])
     (session beforeStaleClick)) = [staleD, trackC] \<and>
   currentSong (playSong (library beforeStaleClick) rndZero staleD (Some [trackC, staleD])
     (session beforeStaleClick)) = Some trackC"
  using playSong_stale_keeps_queue_updates
    [of staleD "library beforeStaleClick" rndZero "[trackC, staleD]" "session beforeStaleClick"]
  unfolding beforeStaleClick_library beforeStaleClick_session
  by (simp add: run_defs trackC_def staleD_def rndZero_def)

section \<open>Previous at the first index\<close>

text \<open>
  Claim C8. When the current song is found at index 0 of the active queue,
  \<open>playPrevious\<close> calls \<open>playSong\<close> on the last entry of the active queue, with the plain
  queue as originating queue, whatever the repeat mode \<open>m\<close> is.
\<close>

theorem playPrevious_at_first_index_wraps:
  assumes "indexOfCurrent s = Some 0"
  shows "playPrevious songs rnd (s\<lparr>repeatMode := m\<rparr>) =
           (playSong songs rnd (last (activeQueue s)) (Some (currentQueue s)) s)\<lparr>repeatMode := m\<rparr>"
proof -
  from indexOfCurrentD [OF assms] have ne: "activeQueue s \<noteq> []" by blast
  then have "activeQueue s ! ((0 + length (activeQueue s) - 1) mod length (activeQueue s)) = last (activeQueue s)"
    by (simp add: last_conv_nth)
  moreover have "indexOfCurrent (s\<lparr>repeatMode := m\<rparr>) = Some 0"
    using assms by (simp add: indexOfCurrent_repeatMode)
  ultimately show ?thesis
    using playPrevious_found [of "s\<lparr>repeatMode := m\<rparr>" 0 songs rnd]
    by (simp add: activeQueue_repeatMode playSong_repeatMode)
qed

theorem playPrevious_at_first_index_wraps_witness:
  "indexOfCurrent firstOfThree = Some 0 \<and> last (activeQueue firstOfThree) = trackC \<and>
   playPrevious [trackA, trackB, trackC] rndZero (firstOfThree\<lparr>repeatMode := RepeatOne\<rparr>) =
     (playSong [trackA, trackB, trackC] rndZero trackC (Some [trackA, trackB, trackC]) firstOfThree)
       \<lparr>repeatMode := RepeatOne\<rparr> \<and>
   currentSong (playPrevious [trackA, trackB, trackC] rndZero (firstOfThree\<lparr>repeatMode := RepeatOne\<rparr>))
     = Some trackC"
  using playPrevious_at_first_index_wraps [of firstOfThree "[trackA, trackB, trackC]" rndZero RepeatOne]
  by (simp add: run_defs example_defs)

section \<open>Next at the last index\<close>




section \<open>Next and previous under shuffle\<close>




section \<open>What holds in every reachable state\<close>

lemma pushHistory_Cons:
  "pushHistory song h = song # take 49 (filter (\<lambda>s. song_id s \<noteq> song_id song) h)"
proof -
  have "(50::nat) = Suc 49" by simp
  then show ?thesis unfolding pushHistory_def by (simp only: take_Suc_Cons)
qed

lemma pushHistory_length: "length (pushHistory song h) \<le> 50"
  by (simp add: pushHistory_def)

lemma pushHistory_set: "set (pushHistory song h) \<subseteq> insert song (set h)"
  using set_take_subset [of 49 "filter (\<lambda>s. song_id s \<noteq> song_id song) h"]
  by (auto simp: pushHistory_Cons)

lemma pushHistory_distinct:
  assumes "distinct (map song_id h)"
  shows "distinct (map song_id (pushHistory song h))"
proof -
  let ?f = "filter (\<lambda>s. song_id s \<noteq> song_id song) h"
  have d: "distinct (map song_id ?f)" using assms by (rule distinct_map_filter)
  have "distinct (map song_id (take 49 ?f))"
    using d by (simp add: take_map [symmetric])
  moreover have "song_id song \<notin> song_id ` set (take 49 ?f)"
    using set_take_subset [of 49 ?f] by auto
  ultimately show ?thesis by (simp add: pushHistory_Cons)
qed

lemma filter_other_ids_tail:
  "distinct (map song_id (h # rest)) \<Longrightarrow> filter (\<lambda>s. song_id s \<noteq> song_id h) rest = rest"
  by (auto simp: filter_id_conv image_iff)

lemma pushHistory_front:
  assumes "distinct (map song_id (h # rest))" and "length (h # rest) \<le> 50" and "song_id song = song_id h"
  shows "pushHistory song (h # rest) = song # rest"
  using assms filter_other_ids_tail [OF assms(1)] by (simp add: pushHistory_Cons)

lemma length_filter_other_ids:
  "distinct (map song_id h) \<Longrightarrow> a \<in> song_id ` set h \<Longrightarrow>
     Suc (length (filter (\<lambda>s. song_id s \<noteq> a) h)) = length h"
proof (induction h)
  case Nil
  then show ?case by simp
next
  case (Cons x xs)
  show ?case
  proof (cases "song_id x = a")
    case True
    then have "filter (\<lambda>s. song_id s \<noteq> a) xs = xs"
      using Cons.prems(1) by (auto simp: filter_id_conv image_iff)
    with True show ?thesis by simp
  next
    case False
    then show ?thesis using Cons by auto
  qed
qed

lemma pushHistory_present_length:
  assumes "distinct (map song_id h)" and "length h \<le> 50" and "song_id song \<in> song_id ` set h"
  shows "length (pushHistory song h) = length h"
  using length_filter_other_ids [OF assms(1,3)] assms(2) by (simp add: pushHistory_def)

lemma knownIfLive_mono: "knownIfLive lib x \<Longrightarrow> knownIfLive (lib @ ys) x"
  by (auto simp: knownIfLive_def)

lemma resolveSong_cases:
  assumes "\<forall>x \<in> set lib. song_file x \<noteq> None" and "set libr \<subseteq> set lib" and "knownIfLive lib t"
  shows "(resolveSong libr t = None \<and> song_file t = None \<and> song_id t \<notin> song_id ` set libr) \<or>
         (\<exists>song f. resolveSong libr t = Some song \<and> song_file song = Some f \<and>
            song_id song = song_id t \<and> song_id song \<in> song_id ` set lib \<and> knownIfLive lib song)"
proof (cases "song_file t")
  case (Some f)
  then show ?thesis using assms(3) by (auto simp: resolveSong_def knownIfLive_def)
next
  case None
  show ?thesis
  proof (cases "find (\<lambda>s. song_id s = song_id t) libr")
    case n: None
    then show ?thesis using None by (auto simp: resolveSong_def find_None_iff image_iff)
  next
    case (Some song)
    then have "song \<in> set libr" and i: "song_id song = song_id t"
      by (auto simp: find_Some_iff in_set_conv_nth)
    then have m: "song \<in> set lib" using assms(2) by auto
    then have "song_id song \<in> song_id ` set lib" by (metis imageI)
    moreover obtain f where "song_file song = Some f" using m assms(1) by auto
    moreover have "resolveSong libr t = Some song" using None Some by (simp add: resolveSong_def)
    ultimately show ?thesis using i by (simp add: knownIfLive_def)
  qed
qed

lemma setQueuesIn_fields:
  "currentSong (setQueuesIn r rnd t q s) = currentSong s"
  "isPlaying (setQueuesIn r rnd t q s) = isPlaying s"
  "recentlyPlayed (setQueuesIn r rnd t q s) = recentlyPlayed s"
  "effects (setQueuesIn r rnd t q s) = effects s"
  "repeatMode (setQueuesIn r rnd t q s) = repeatMode s"
  "isShuffleActive (setQueuesIn r rnd t q s) = isShuffleActive s"
  by (simp_all add: setQueuesIn_def split: option.splits)

lemma sessionInv_setQueuesIn:
  assumes "sessionInv lib s" and "knownIfLive lib t"
    and "\<And>q'. q = Some q' \<Longrightarrow> \<forall>x \<in> set q'. knownIfLive lib x"
  shows "sessionInv lib (setQueuesIn r rnd t q s)"
proof (cases q)
  case None
  then show ?thesis using assms(1) by (simp add: setQueuesIn_def)
next
  case (Some q')
  then have k: "\<forall>x \<in> set q'. knownIfLive lib x" using assms(3) by simp
  have "\<forall>x \<in> set (buildShuffledQueue rnd (rngPos s) q' t). knownIfLive lib x"
    using k assms(2) by (auto simp: buildShuffledQueue_def shuffleArray_set otherSongs_def)
  then show ?thesis
    using assms(1) k Some
    by (simp add: sessionInv_def setQueuesIn_def cong: option.case_cong list.case_cong)
qed

lemma closesOver_current:
  "sessionInv lib s \<Longrightarrow> closesOver lib s \<lparr>songsProp = lib, hooks = s\<rparr>"
  by (auto simp: closesOver_def sessionInv_def split: option.splits)

lemma closesOver_keep:
  assumes "closesOver lib s r" and "set lib \<subseteq> set lib'"
    and "currentSong s' = currentSong s" and "currentQueue s' = currentQueue s"
    and "shuffledQueue s' = shuffledQueue s" and "isShuffleActive s' = isShuffleActive s"
  shows "closesOver lib' s' r"
  using assms by (auto simp: closesOver_def split: option.splits)

lemma closesOver_active:
  "closesOver lib s r \<Longrightarrow> activeQueue (hooks r) = activeQueue s"
  by (simp add: closesOver_def activeQueue_def)

lemma sessionInv_playSongIn:
  assumes inv: "sessionInv lib s" and cl: "closesOver lib s r" and t: "knownIfLive lib t"
    and q: "\<And>q'. q = Some q' \<Longrightarrow> \<forall>x \<in> set q'. knownIfLive lib x"
  shows "sessionInv lib (playSongIn r rnd t q s)"
proof -
  let ?s1 = "setQueuesIn r rnd t q s"
  have inv1: "sessionInv lib ?s1" using inv t q by (rule sessionInv_setQueuesIn)
  have lib: "\<forall>x \<in> set lib. song_file x \<noteq> None" using inv by (simp add: sessionInv_def)
  have sub: "set (songsProp r) \<subseteq> set lib" using cl by (simp add: closesOver_def)
  have cur: "currentSong (hooks r) = currentSong s" using cl by (simp add: closesOver_def)
  from resolveSong_cases [OF lib sub t] show ?thesis
  proof (elim disjE conjE exE)
    assume r: "resolveSong (songsProp r) t = None" and nf: "song_file t = None"
      and nk: "song_id t \<notin> song_id ` set (songsProp r)"
    have ps: "playSongIn r rnd t q s =
        ?s1\<lparr>effects := effects ?s1 @ [Alert],
            recentlyPlayed := filter (\<lambda>x. song_id x \<noteq> song_id t) (recentlyPlayed ?s1)\<rparr>"
      using r by (simp add: playSongIn_def Let_def)
    have other: "song_id c \<noteq> song_id t" if "currentSong s = Some c" for c
      using cl nk that by (auto simp: closesOver_def)
    have cur': "case currentSong ?s1 of None \<Rightarrow> True
       | Some c \<Rightarrow> song_id c \<in> song_id ` set lib \<and>
           (case filter (\<lambda>x. song_id x \<noteq> song_id t) (recentlyPlayed ?s1) of
              [] \<Rightarrow> False | h # _ \<Rightarrow> song_id h = song_id c)"
      using inv1 other
      by (auto simp: sessionInv_def setQueuesIn_fields split: option.splits list.splits)
    have "length (recentlyPlayed ?s1) \<le> 50" using inv1 by (simp add: sessionInv_def)
    then have len: "length (filter (\<lambda>x. song_id x \<noteq> song_id t) (recentlyPlayed ?s1)) \<le> 50"
      by (rule order_trans [OF length_filter_le])
    show ?thesis
      unfolding ps using inv1 cur' len
      by (simp add: sessionInv_def distinct_map_filter cong: option.case_cong list.case_cong)
  next
    fix song f
    assume r: "resolveSong (songsProp r) t = Some song" and f: "song_file song = Some f"
      and k: "song_id song \<in> song_id ` set lib" and ks: "knownIfLive lib song"
    have hist: "\<forall>x \<in> set (pushHistory song (recentlyPlayed ?s1)). knownIfLive lib x"
      using pushHistory_set [of song "recentlyPlayed ?s1"] inv1 ks by (auto simp: sessionInv_def)
    have dist: "distinct (map song_id (pushHistory song (recentlyPlayed ?s1)))"
      using inv1 by (simp add: sessionInv_def pushHistory_distinct)
    note len = pushHistory_length [of song "recentlyPlayed ?s1"]
    show ?thesis
    proof (cases "case currentSong s of None \<Rightarrow> False | Some c \<Rightarrow> song_id c = song_id song")
      case True
      then have ps: "playSongIn r rnd t q s =
          (togglePlayPauseIn r ?s1)\<lparr>recentlyPlayed := pushHistory song (recentlyPlayed ?s1)\<rparr>"
        using r cur by (simp add: playSongIn_def Let_def)
      show ?thesis
        unfolding ps using inv1 hist dist len True
        by (auto simp: sessionInv_def togglePlayPauseIn_def setQueuesIn_fields pushHistory_Cons
            split: option.splits cong: option.case_cong list.case_cong)
    next
      case False
      then have ps: "playSongIn r rnd t q s =
          ?s1\<lparr>currentSong := Some song, effects := effects ?s1 @ [SetSrc f, Play],
              isPlaying := True, recentlyPlayed := pushHistory song (recentlyPlayed ?s1)\<rparr>"
        using r f cur by (simp add: playSongIn_def Let_def)
      show ?thesis
        unfolding ps using inv1 hist dist len k
        by (simp add: sessionInv_def pushHistory_Cons cong: option.case_cong list.case_cong)
    qed
  qed
qed

lemma sessionInv_playSong:
  assumes "sessionInv lib s" and "knownIfLive lib t"
    and "\<And>q'. q = Some q' \<Longrightarrow> \<forall>x \<in> set q'. knownIfLive lib x"
  shows "sessionInv lib (playSong lib rnd t q s)"
  using sessionInv_playSongIn [OF assms(1) closesOver_current [OF assms(1)] assms(2,3), of q rnd]
  by (simp add: playSongIn_current)

lemma sessionInv_active:
  "sessionInv lib s \<Longrightarrow> x \<in> set (activeQueue s) \<Longrightarrow> knownIfLive lib x"
  by (auto simp: sessionInv_def activeQueue_def split: if_splits)

lemma sessionInv_queue:
  "sessionInv lib s \<Longrightarrow> Some (currentQueue s) = Some q' \<Longrightarrow> \<forall>x \<in> set q'. knownIfLive lib x"
  by (auto simp: sessionInv_def)

lemma sessionInv_isPlaying: "sessionInv lib s \<Longrightarrow> sessionInv lib (s\<lparr>isPlaying := b\<rparr>)"
  by (simp add: sessionInv_def cong: option.case_cong list.case_cong)

lemma sessionInv_playNextIn:
  assumes "sessionInv lib s" and "closesOver lib s r"
  shows "sessionInv lib (playNextIn r rnd s)"
proof -
  have aq: "activeQueue (hooks r) = activeQueue s" and cq: "currentQueue (hooks r) = currentQueue s"
    using assms(2) by (simp_all add: closesOver_def activeQueue_def)
  have k: "knownIfLive lib (activeQueue s ! j)" if "j < length (activeQueue s)" for j
    using sessionInv_active [OF assms(1)] that by simp
  have ps: "sessionInv lib (playSongIn r rnd (activeQueue s ! j) (Some (currentQueue s)) s)"
    if "j < length (activeQueue s)" for j
    using assms k [OF that] sessionInv_queue [OF assms(1)] by (rule sessionInv_playSongIn)
  show ?thesis
    using assms(1) ps sessionInv_isPlaying [OF assms(1), of False]
    by (auto simp: playNextIn_def aq cq Let_def split: option.splits dest: findIndex_Some_less)
qed

lemma sessionInv_playPreviousIn:
  assumes "sessionInv lib s" and "closesOver lib s r"
  shows "sessionInv lib (playPreviousIn r rnd s)"
proof -
  have aq: "activeQueue (hooks r) = activeQueue s" and cq: "currentQueue (hooks r) = currentQueue s"
    using assms(2) by (simp_all add: closesOver_def activeQueue_def)
  have k: "knownIfLive lib (activeQueue s ! j)" if "j < length (activeQueue s)" for j
    using sessionInv_active [OF assms(1)] that by simp
  have ps: "sessionInv lib (playSongIn r rnd (activeQueue s ! j) (Some (currentQueue s)) s)"
    if "j < length (activeQueue s)" for j
    using assms k [OF that] sessionInv_queue [OF assms(1)] by (rule sessionInv_playSongIn)
  show ?thesis
    using assms(1) ps
    by (auto simp: playPreviousIn_def aq cq Let_def split: option.splits)
qed

lemma sessionInv_playNext: "sessionInv lib s \<Longrightarrow> sessionInv lib (playNext lib rnd s)"
  using sessionInv_playNextIn [OF _ closesOver_current, of lib s rnd]
  by (simp add: playNextIn_current)

lemma sessionInv_playPrevious: "sessionInv lib s \<Longrightarrow> sessionInv lib (playPrevious lib rnd s)"
  using sessionInv_playPreviousIn [OF _ closesOver_current, of lib s rnd]
  by (simp add: playPreviousIn_current)

lemma sessionInv_togglePlayPauseIn: "sessionInv lib s \<Longrightarrow> sessionInv lib (togglePlayPauseIn r s)"
  by (auto simp: sessionInv_def togglePlayPauseIn_def split: option.splits
      cong: option.case_cong list.case_cong)

lemma sessionInv_togglePlayPause: "sessionInv lib s \<Longrightarrow> sessionInv lib (togglePlayPause s)"
  by (auto simp: sessionInv_def togglePlayPause_def split: option.splits
      cong: option.case_cong list.case_cong)

lemma sessionInv_toggleShuffle:
  assumes "sessionInv lib s"
  shows "sessionInv lib (toggleShuffle rnd s)"
proof (cases "currentSong s")
  case None
  then show ?thesis
    using assms by (simp add: toggleShuffle_def sessionInv_def Let_def)
next
  case (Some c)
  then have "knownIfLive lib c" using assms by (simp add: sessionInv_def knownIfLive_def)
  then have "\<forall>x \<in> set (buildShuffledQueue rnd (rngPos s) (currentQueue s) c). knownIfLive lib x"
    using assms by (auto simp: buildShuffledQueue_def shuffleArray_set otherSongs_def sessionInv_def)
  then show ?thesis
    using assms Some
    by (simp add: toggleShuffle_def sessionInv_def Let_def cong: list.case_cong)
qed

lemma sessionInv_handleEnded:
  assumes "sessionInv lib s" and "closesOver lib s r"
  shows "sessionInv lib (handleEnded r rnd s)"
proof (cases "repeatMode (hooks r) = RepeatOne")
  case True
  then show ?thesis
    using assms(1) by (simp add: handleEnded_def sessionInv_def cong: option.case_cong list.case_cong)
next
  case False
  then show ?thesis using sessionInv_playNextIn [OF assms] by (simp add: handleEnded_def)
qed

lemma sessionInv_plain:
  assumes "sessionInv lib s"
  shows "sessionInv lib (toggleRepeat s)" and "sessionInv lib (seek t s)"
    and "sessionInv lib (handleTimeUpdate t s)" and "sessionInv lib (handleLoadedMetadata t s)"
    and "sessionInv lib (openFullPlayer s)" and "sessionInv lib (closeFullPlayer s)"
  using assms
  by (simp_all add: sessionInv_def toggleRepeat_def seek_def handleTimeUpdate_def
      handleLoadedMetadata_def openFullPlayer_def closeFullPlayer_def
      cong: option.case_cong list.case_cong)

lemma sessionInv_import:
  assumes "sessionInv lib s"
  shows "sessionInv (lib @ [newSong now ti ar f]) s"
  using assms knownIfLive_mono [of lib _ "[newSong now ti ar f]"]
  by (auto simp: sessionInv_def newSong_def split: option.splits)

lemma playSongIn_keeps_current:
  "currentSong s \<noteq> None \<Longrightarrow> currentSong (playSongIn r rnd t q s) \<noteq> None"
  by (auto simp: playSongIn_def Let_def setQueuesIn_fields togglePlayPauseIn_def split: option.splits)

lemma playNextIn_keeps_current:
  "currentSong s \<noteq> None \<Longrightarrow> currentSong (playNextIn r rnd s) \<noteq> None"
  using playSongIn_keeps_current [of s r rnd]
  by (simp add: playNextIn_def Let_def split: option.splits)

lemma playPreviousIn_keeps_current:
  "currentSong s \<noteq> None \<Longrightarrow> currentSong (playPreviousIn r rnd s) \<noteq> None"
  using playSongIn_keeps_current [of s r rnd]
  by (simp add: playPreviousIn_def Let_def split: option.splits)

lemma sessionAfter_keeps_current:
  assumes "currentSong (session ap) \<noteq> None"
  shows "currentSong (sessionAfter rnd e ap) \<noteq> None"
proof (cases e)
  case (ClickSong i)
  then show ?thesis
    using assms playSongIn_keeps_current [of "session ap" "\<lparr>songsProp = library ap, hooks = session ap\<rparr>"]
    by (simp add: playSongIn_current)
next
  case (ClickRecent i)
  then show ?thesis
    using assms playSongIn_keeps_current [of "session ap" "\<lparr>songsProp = library ap, hooks = session ap\<rparr>"]
    by (simp add: playSongIn_current)
next
  case PressNext
  then show ?thesis
    using assms playNextIn_keeps_current [of "session ap" "\<lparr>songsProp = library ap, hooks = session ap\<rparr>"]
    by (simp add: playNextIn_current)
next
  case PressPrevious
  then show ?thesis
    using assms playPreviousIn_keeps_current [of "session ap" "\<lparr>songsProp = library ap, hooks = session ap\<rparr>"]
    by (simp add: playPreviousIn_current)
next
  case AudioEnded
  then show ?thesis
    using assms playNextIn_keeps_current [of "session ap" "endedListener ap"]
    by (simp add: handleEnded_def)
next
  case MediaNextTrack
  then show ?thesis
    using assms playNextIn_keeps_current [of "session ap"]
    by (simp add: viaMedia_def split: option.splits)
next
  case MediaPreviousTrack
  then show ?thesis
    using assms playPreviousIn_keeps_current [of "session ap"]
    by (simp add: viaMedia_def split: option.splits)
qed (use assms in \<open>auto simp: togglePlayPause_def togglePlayPauseIn_def toggleShuffle_def
      toggleRepeat_def seek_def handleTimeUpdate_def handleLoadedMetadata_def openFullPlayer_def
      closeFullPlayer_def viaMedia_def Let_def split: option.splits\<close>)

lemma sessionInv_sessionAfter:
  assumes "appInv ap"
  shows "sessionInv (libraryAfter e ap) (sessionAfter rnd e ap)"
proof -
  from assms have inv: "sessionInv (library ap) (session ap)"
    and ce: "closesOver (library ap) (session ap) (endedListener ap)"
    and cm: "\<And>r. mediaHandlers ap = Some r \<Longrightarrow> closesOver (library ap) (session ap) r"
    by (simp_all add: appInv_def)
  show ?thesis
  proof (cases e)
    case (SaveMetadata now ti ar f)
    then show ?thesis using sessionInv_import [OF inv] by simp
  next
    case (ClickSong i)
    have lk: "\<forall>x \<in> set (library ap). knownIfLive (library ap) x"
      by (simp add: knownIfLive_def)
    show ?thesis
    proof (cases "i < length (library ap)")
      case True
      have "sessionInv (library ap) (playSong (library ap) rnd (library ap ! i) (Some (library ap)) (session ap))"
        using inv lk True by (intro sessionInv_playSong) auto
      then show ?thesis using ClickSong True by simp
    next
      case False
      then show ?thesis using ClickSong inv by simp
    qed
  next
    case (ClickRecent i)
    have hk: "\<forall>x \<in> set (recentlyPlayed (session ap)). knownIfLive (library ap) x"
      using inv by (simp add: sessionInv_def)
    show ?thesis
    proof (cases "i < length (recentlyPlayed (session ap))")
      case True
      have "sessionInv (library ap) (playSong (library ap) rnd (recentlyPlayed (session ap) ! i)
          (Some (recentlyPlayed (session ap))) (session ap))"
        using inv hk True by (intro sessionInv_playSong) auto
      then show ?thesis using ClickRecent True by simp
    next
      case False
      then show ?thesis using ClickRecent inv by simp
    qed
  next
    case AudioEnded
    then show ?thesis using sessionInv_handleEnded [OF inv ce] by simp
  next
    case MediaPlay
    then show ?thesis
      using inv sessionInv_togglePlayPauseIn [OF inv] by (simp add: viaMedia_def split: option.splits)
  next
    case MediaPause
    then show ?thesis
      using inv sessionInv_togglePlayPauseIn [OF inv] by (simp add: viaMedia_def split: option.splits)
  next
    case MediaNextTrack
    then show ?thesis
      using inv sessionInv_playNextIn [OF inv cm] by (simp add: viaMedia_def split: option.splits)
  next
    case MediaPreviousTrack
    then show ?thesis
      using inv sessionInv_playPreviousIn [OF inv cm] by (simp add: viaMedia_def split: option.splits)
  qed (use inv in \<open>simp_all add: sessionInv_playNext sessionInv_playPrevious
        sessionInv_togglePlayPause sessionInv_toggleShuffle sessionInv_plain\<close>)
qed

lemma libraryAfter_grows: "set (library ap) \<subseteq> set (libraryAfter e ap)"
  by (cases e) auto

lemma rerender_fields:
  "library (rerender forced ap lib s) = lib"
  "session (rerender forced ap lib s) = s"
  by (simp_all add: rerender_def)

lemma appInv_rerender:
  assumes "appInv ap" and "sessionInv lib s" and "set (library ap) \<subseteq> set lib"
    and "currentSong (session ap) \<noteq> None \<Longrightarrow> currentSong s \<noteq> None"
  shows "appInv (rerender forced ap lib s)"
proof -
  note fresh = closesOver_current [OF assms(2)]
  have old: "closesOver (library ap) (session ap) (endedListener ap)"
    using assms(1) by (simp add: appInv_def)
  have e: "closesOver lib s (endedListener (rerender forced ap lib s))"
  proof (cases "forced \<or> endedDeps s \<noteq> endedDeps (session ap)")
    case True
    then show ?thesis using fresh by (simp add: rerender_def)
  next
    case False
    then have d: "endedDeps s = endedDeps (session ap)" by simp
    have "closesOver lib s (endedListener ap)"
      using d by (intro closesOver_keep [OF old assms(3)]) (simp_all add: endedDeps_def)
    then show ?thesis using False by (simp add: rerender_def)
  qed
  have m: "currentSong s \<noteq> None \<and> closesOver lib s r"
    if r: "mediaHandlers (rerender forced ap lib s) = Some r" for r
  proof (cases "(forced \<or> mediaDeps s \<noteq> mediaDeps (session ap)) \<and> currentSong s \<noteq> None")
    case True
    then show ?thesis using r fresh by (auto simp: rerender_def)
  next
    case False
    then have r': "mediaHandlers ap = Some r" using r by (auto simp: rerender_def split: if_splits)
    then have c: "currentSong (session ap) \<noteq> None"
      and cl: "closesOver (library ap) (session ap) r"
      using assms(1) by (simp_all add: appInv_def)
    from c have c': "currentSong s \<noteq> None" by (rule assms(4))
    with False have d: "mediaDeps s = mediaDeps (session ap)" by simp
    have "closesOver lib s r"
      using d by (intro closesOver_keep [OF cl assms(3)]) (simp_all add: mediaDeps_def)
    with c' show ?thesis by simp
  qed
  show ?thesis
    unfolding appInv_def rerender_fields using assms(2) e m
    by (simp split: option.splits)
qed

lemma appInv_step: "appInv ap \<Longrightarrow> appInv (step rnd e ap)"
  unfolding step_def
  by (intro appInv_rerender sessionInv_sessionAfter libraryAfter_grows sessionAfter_keeps_current)

lemma sessionInv_init: "storable h \<Longrightarrow> sessionInv [] (initPlayer h)"
  by (auto simp: storable_def sessionInv_def initPlayer_def knownIfLive_def list_all_iff)

lemma appInv_init: "storable h \<Longrightarrow> appInv (initApp h)"
  using sessionInv_init [of h] closesOver_current [of "[]" "initPlayer h"]
  by (simp add: appInv_def initApp_def)

lemma reachable_appInv: "reachable rnd ap \<Longrightarrow> appInv ap"
  by (induction rule: reachable.induct) (simp_all add: appInv_init appInv_step)

lemma reachable_sessionInv: "reachable rnd ap \<Longrightarrow> sessionInv (library ap) (session ap)"
  using reachable_appInv [of rnd ap] by (simp add: appInv_def)

lemma reachable_run: "reachable rnd ap \<Longrightarrow> reachable rnd (run rnd es ap)"
  by (induction es arbitrary: ap) (auto intro: reachable_step)

lemma reachable_history_storable: "reachable rnd ap \<Longrightarrow> storable (storableRecentlyPlayed (session ap))"
  using reachable_sessionInv [of rnd ap]
  by (auto simp: storable_def storableRecentlyPlayed_def sessionInv_def list_all_iff comp_def)

lemma beforeStaleClick_reachable: "reachable rndZero beforeStaleClick"
  unfolding beforeStaleClick_def
  by (rule reachable_run, rule reachable_init) (simp add: storable_def staleD_def)

lemma reachable_resolved_live:
  assumes "reachable rnd ap" and "resolveSong (library ap) t = Some song"
  shows "\<exists>f. song_file song = Some f"
proof (cases "song_file t")
  case None
  then have "find (\<lambda>s. song_id s = song_id t) (library ap) = Some song"
    using assms(2) by (simp add: resolveSong_def)
  then have "song \<in> set (library ap)" by (auto simp: find_Some_iff in_set_conv_nth)
  then show ?thesis
    using reachable_sessionInv [OF assms(1)] by (auto simp: sessionInv_def)
next
  case (Some f)
  then show ?thesis using assms(2) by (auto simp: resolveSong_def)
qed

lemma playSong_history:
  "recentlyPlayed (playSong songs rnd t q s) =
     (case resolveSong songs t of
        None \<Rightarrow> filter (\<lambda>x. song_id x \<noteq> song_id t) (recentlyPlayed s)
      | Some song \<Rightarrow>
          if (case currentSong s of None \<Rightarrow> False | Some c \<Rightarrow> song_id c = song_id song)
             \<or> song_file song \<noteq> None
          then pushHistory song (recentlyPlayed s)
          else recentlyPlayed s)"
  by (auto simp: playSong_def Let_def setQueues_fields togglePlayPause_def split: option.splits)

section \<open>The history\<close>

text \<open>
  Claim C5, as the code has it. In every reachable state, after \<open>playSong\<close> on any track
  the history has at most 50 entries and no two entries with the same id. When the
  track resolves to a song (itself if it has a file, else the library entry of its id),
  that song is at index 0 afterwards, and if an entry of its id was in the history
  before, the length is as before. A track that does not resolve is stale, and
  \<open>playSong\<close> removes it from the history instead.
\<close>

theorem playSong_history_capped_deduplicated_front:
  assumes "reachable rnd ap"
  shows "length (recentlyPlayed (playSong (library ap) rnd' t q (session ap))) \<le> 50 \<and>
         distinct (map song_id (recentlyPlayed (playSong (library ap) rnd' t q (session ap)))) \<and>
         (resolveSong (library ap) t = Some song \<longrightarrow>
            recentlyPlayed (playSong (library ap) rnd' t q (session ap)) \<noteq> [] \<and>
            recentlyPlayed (playSong (library ap) rnd' t q (session ap)) ! 0 = song \<and>
            song_id song = song_id t \<and>
            (song_id t \<in> song_id ` set (recentlyPlayed (session ap)) \<longrightarrow>
               length (recentlyPlayed (playSong (library ap) rnd' t q (session ap)))
                 = length (recentlyPlayed (session ap)))) \<and>
         (resolveSong (library ap) t = None \<longrightarrow>
            song_id t \<notin> song_id ` set (recentlyPlayed (playSong (library ap) rnd' t q (session ap))))"
proof -
  let ?h = "recentlyPlayed (session ap)"
  let ?h' = "recentlyPlayed (playSong (library ap) rnd' t q (session ap))"
  from reachable_sessionInv [OF assms]
  have d: "distinct (map song_id ?h)" and l: "length ?h \<le> 50"
    by (simp_all add: sessionInv_def)
  have lf: "length (filter (\<lambda>x. song_id x \<noteq> song_id t) ?h) \<le> 50"
    using l by (rule order_trans [OF length_filter_le])
  have "length ?h' \<le> 50"
    using l lf by (simp add: playSong_history pushHistory_length split: option.splits)
  moreover have "distinct (map song_id ?h')"
    using d by (simp add: playSong_history pushHistory_distinct distinct_map_filter split: option.splits)
  moreover have "?h' \<noteq> [] \<and> ?h' ! 0 = song \<and> song_id song = song_id t \<and>
      (song_id t \<in> song_id ` set ?h \<longrightarrow> length ?h' = length ?h)"
    if r: "resolveSong (library ap) t = Some song"
  proof -
    from reachable_resolved_live [OF assms r] obtain f where "song_file song = Some f" ..
    then have h': "?h' = pushHistory song ?h" using r by (simp add: playSong_history)
    have i: "song_id song = song_id t" using r by (rule resolveSong_id)
    show ?thesis
      using pushHistory_present_length [OF d l, of song] i
      by (simp add: h' pushHistory_Cons [of song ?h])
  qed
  moreover have "song_id t \<notin> song_id ` set ?h'" if "resolveSong (library ap) t = None"
    using that by (auto simp: playSong_history)
  ultimately show ?thesis by blast
qed

theorem playSong_history_capped_deduplicated_front_witness:
  "reachable rndZero beforeStaleClick \<and>
   resolveSong (library beforeStaleClick) trackC = Some trackC \<and>
   recentlyPlayed (session beforeStaleClick) = [trackC, staleD] \<and>
   song_id trackC \<in> song_id ` set (recentlyPlayed (session beforeStaleClick)) \<and>
   recentlyPlayed (playSong (library beforeStaleClick) rndZero trackC (Some [trackC]) (session beforeStaleClick))
     = [trackC, staleD] \<and>
   length (recentlyPlayed (playSong (library beforeStaleClick) rndZero trackC (Some [trackC]) (session beforeStaleClick)))
     = length (recentlyPlayed (session beforeStaleClick)) \<and>
   resolveSong (library beforeStaleClick) staleD = None \<and>
   song_id staleD \<notin> song_id ` set (recentlyPlayed
     (playSong (library beforeStaleClick) rndZero staleD (Some [trackC, staleD]) (session beforeStaleClick)))"
proof -
  let ?s = "session beforeStaleClick" and ?lib = "library beforeStaleClick"
  have r: "resolveSong ?lib trackC = Some trackC"
    by (simp add: resolveSong_def trackC_def newSong_def)
  have h: "recentlyPlayed ?s = [trackC, staleD]"
    by (simp add: beforeStaleClick_session)
  have m: "song_id trackC \<in> song_id ` set (recentlyPlayed ?s)"
    by (simp add: h)
  have e: "recentlyPlayed (playSong ?lib rndZero trackC (Some [trackC]) ?s) = [trackC, staleD]"
    unfolding beforeStaleClick_session beforeStaleClick_library
    by (simp add: run_defs trackC_def staleD_def)
  have n: "resolveSong ?lib staleD = None"
    by (simp add: beforeStaleClick_library resolveSong_def trackC_def staleD_def newSong_def)
  have "length (recentlyPlayed (playSong ?lib rndZero trackC (Some [trackC]) ?s))
      = length (recentlyPlayed ?s)"
    using playSong_history_capped_deduplicated_front
      [OF beforeStaleClick_reachable, of rndZero trackC "Some [trackC]" trackC] r m
    by blast
  moreover have "song_id staleD \<notin> song_id ` set (recentlyPlayed
      (playSong ?lib rndZero staleD (Some [trackC, staleD]) ?s))"
    using playSong_history_capped_deduplicated_front
      [OF beforeStaleClick_reachable, of rndZero staleD "Some [trackC, staleD]" trackC] n
    by blast
  ultimately show ?thesis using beforeStaleClick_reachable r h m e n by blast
qed

text \<open>
  The claim as worded, for every play operation, fails on the stale one: a new session
  finds D in the stored history, D is clicked in the Recently Played list, and the
  history is empty afterwards; D is not at index 0.
\<close>

theorem playSong_stale_click_empties_history:
  "recentlyPlayed (session (initApp [staleD])) = [staleD] \<and>
   recentlyPlayed (session (step rndZero (ClickRecent 0) (initApp [staleD]))) = []"
  by (simp add: run_defs staleD_def)

section \<open>Playing the current song again\<close>

text \<open>
  The views do what claim C7 says. In every reachable state with current song X and
  \<open>isPlaying\<close> true, \<open>playSong\<close> run by a closure of the current render on a track with X's
  id, with or without a queue, pauses: \<open>isPlaying\<close> is false afterwards, the only command
  to the audio element is \<open>pause\<close> (no source is set), X is still the current song, and
  the history keeps its sequence of ids and everything after its first entry; the first
  entry had X's id before and has it after.
\<close>

lemma playSong_current_pauses:
  assumes "reachable rnd ap" and "currentSong (session ap) = Some X" and "isPlaying (session ap)"
    and "song_id t = song_id X"
  shows "\<not> isPlaying (playSong (library ap) rnd' t q (session ap)) \<and>
         effects (playSong (library ap) rnd' t q (session ap)) = effects (session ap) @ [Pause] \<and>
         currentSong (playSong (library ap) rnd' t q (session ap)) = Some X \<and>
         map song_id (recentlyPlayed (playSong (library ap) rnd' t q (session ap)))
           = map song_id (recentlyPlayed (session ap)) \<and>
         tl (recentlyPlayed (playSong (library ap) rnd' t q (session ap)))
           = tl (recentlyPlayed (session ap)) \<and>
         song_id (hd (recentlyPlayed (session ap))) = song_id X"
proof -
  let ?s = "session ap" and ?lib = "library ap"
  note inv = reachable_sessionInv [OF assms(1)]
  from inv assms(2) obtain h rest where h: "recentlyPlayed ?s = h # rest" "song_id h = song_id X"
    and x: "song_id X \<in> song_id ` set ?lib"
    by (auto simp: sessionInv_def split: list.splits)
  from inv have d: "distinct (map song_id (recentlyPlayed ?s))" and l: "length (recentlyPlayed ?s) \<le> 50"
    and lib: "\<forall>x \<in> set ?lib. song_file x \<noteq> None"
    by (simp_all add: sessionInv_def)
  have "knownIfLive ?lib t" using x assms(4) by (simp add: knownIfLive_def)
  from resolveSong_cases [OF lib subset_refl this] x assms(4)
  obtain song where r: "resolveSong ?lib t = Some song" and i: "song_id song = song_id X"
    by auto
  have ps: "playSong ?lib rnd' t q ?s =
      (togglePlayPause (setQueues rnd' t q ?s))\<lparr>recentlyPlayed := pushHistory song (recentlyPlayed ?s)\<rparr>"
    using r i assms(2) by (simp add: playSong_def Let_def setQueues_fields)
  have ph: "pushHistory song (recentlyPlayed ?s) = song # rest"
    using d l i h by (simp add: pushHistory_front)
  show ?thesis
    unfolding ps ph using assms(2,3) h i
    by (simp add: togglePlayPause_def setQueues_fields)
qed

text \<open>
  Claim C7 fails in the \<open>ended\<close> listener. C is the only song of the queue and plays;
  it is paused, repeat is pressed while it is paused (\<open>'all'\<close>), and play is resumed.
  Pressing repeat was the last change of a dependency of the effect that registers the
  listener, so the listener is the closure of that render, in which \<open>isPlaying\<close> was false;
  \<open>isPlaying\<close> is not in the dependency list. When the song ends, \<open>handleEnded\<close> calls
  \<open>playNext\<close>, which wraps and calls \<open>playSong\<close> on C, the current song, with the session
  playing. \<open>togglePlayPause\<close> reads \<open>isPlaying = false\<close>: it calls \<open>play()\<close> and sets
  \<open>isPlaying\<close> to true. The session is not paused.
\<close>

theorem ended_listener_resumes_instead_of_pausing:
  "currentSong (session staleEndedApp) = Some trackC \<and>
   isPlaying (session staleEndedApp) \<and>
   \<not> isPlaying (hooks (endedListener staleEndedApp)) \<and>
   sessionAfter rndZero AudioEnded staleEndedApp =
     playSongIn (endedListener staleEndedApp) rndZero trackC (Some [trackC]) (session staleEndedApp) \<and>
   isPlaying (session (step rndZero AudioEnded staleEndedApp)) \<and>
   effects (session (step rndZero AudioEnded staleEndedApp))
     = effects (session staleEndedApp) @ [Play]"
  unfolding step_def rerender_fields sessionAfter.simps
    staleEndedApp_session staleEndedApp_endedListener
  by (simp add: handleEnded_def playNextIn_def playSongIn_def setQueuesIn_def togglePlayPauseIn_def
      resolveSong_def pushHistory_def activeQueue_def trackC_def newSong_def Let_def)

section \<open>The anchor of the shuffled queue\<close>

text \<open>
  \<open>toggleShuffle\<close> and every \<open>playSong\<close> that resolves its track and is given a queue
  leave the shuffled queue anchored at the current song.
\<close>

lemma anchored_toggleShuffle: "anchored (toggleShuffle rnd s)"
  by (simp add: anchored_def toggleShuffle_def buildShuffledQueue_def Let_def split: option.splits)

lemma anchored_playSong_resolved:
  assumes "resolveSong songs t = Some song" and "song_file song \<noteq> None"
  shows "anchored (playSong songs rnd t (Some q) s)"
proof -
  have i: "song_id song = song_id t" using assms(1) by (rule resolveSong_id)
  obtain f where f: "song_file song = Some f" using assms(2) by auto
  show ?thesis
    using assms(1) f i
    by (auto simp: anchored_def playSong_def Let_def setQueues_def togglePlayPause_def
        buildShuffledQueue_def split: option.splits)
qed

text \<open>
  Claim C1 fails in a reachable state. C plays under shuffle, and D, a stale entry of
  the Recently Played list, is clicked: \<open>playSong\<close> rebuilds the shuffled queue with D in
  front, then finds D stale and returns. Shuffle is active, the current song is C, and
  the first entry of the shuffled queue is D.
\<close>

theorem stale_click_breaks_shuffle_anchor:
  "isShuffleActive (session staleClickApp) \<and>
   currentSong (session staleClickApp) = Some trackC \<and>
   shuffledQueue (session staleClickApp) = [staleD, trackC] \<and>
   song_id staleD \<noteq> song_id trackC"
  by (simp add: run_defs example_defs)

lemma staleClickApp_reachable: "reachable rndZero staleClickApp"
  unfolding staleClickApp_def using beforeStaleClick_reachable by (rule reachable_step)

lemma staleClickApp_not_anchored:
  "anchored (session beforeStaleClick) \<and> \<not> anchored (session staleClickApp)"
  by (simp add: anchored_def beforeStaleClick_session staleClickApp_session staleD_def trackC_def newSong_def)

lemma staleEndedApp_reachable: "reachable rndZero staleEndedApp"
  unfolding staleEndedApp_def
  by (rule reachable_run, rule reachable_init) (simp add: storable_def)

section \<open>The current song is in the active queue\<close>

text \<open>
  Every call of \<open>playSong\<close> in the application hands over a queue that holds the track
  and the current song, by id, so the current song never leaves the queues.
\<close>

lemma ids_buildShuffledQueue:
  "song_id ` set (buildShuffledQueue rnd pos q t) = insert (song_id t) (song_id ` set q)"
  by (auto simp: buildShuffledQueue_def shuffleArray_set otherSongs_def)

lemma playSongIn_queues:
  "currentQueue (playSongIn r rnd t (Some q) s) = q"
  "isShuffleActive (playSongIn r rnd t (Some q) s) = isShuffleActive s"
  "shuffledQueue (playSongIn r rnd t (Some q) s) =
     (if isShuffleActive (hooks r) then buildShuffledQueue rnd (rngPos s) q t else shuffledQueue s)"
  by (simp_all add: playSongIn_def Let_def togglePlayPauseIn_def setQueuesIn_def split: option.splits)

lemma playSongIn_currentSong:
  "currentSong (playSongIn r rnd t q s) = currentSong s \<or>
   (\<exists>song. currentSong (playSongIn r rnd t q s) = Some song \<and> song_id song = song_id t)"
  by (auto simp: playSongIn_def Let_def togglePlayPauseIn_def setQueuesIn_fields
      split: option.splits dest: resolveSong_id)

lemma queuesInv_playSongIn:
  assumes "queuesInv s" and "isShuffleActive (hooks r) = isShuffleActive s"
    and t: "song_id t \<in> song_id ` set q"
    and c: "\<And>c. currentSong s = Some c \<Longrightarrow> song_id c \<in> song_id ` set q"
  shows "queuesInv (playSongIn r rnd t (Some q) s)"
proof -
  let ?s' = "playSongIn r rnd t (Some q) s"
  have cur: "song_id c \<in> song_id ` set q" if "currentSong ?s' = Some c" for c
    using playSongIn_currentSong [of r rnd t "Some q" s] that c t by auto
  have sh: "shuffledQueue ?s' = (if isShuffleActive s then buildShuffledQueue rnd (rngPos s) q t else [])"
    using assms(1,2) by (auto simp: playSongIn_queues queuesInv_def)
  have ids: "isShuffleActive s \<Longrightarrow> song_id ` set (shuffledQueue ?s') = song_id ` set q"
    using t by (auto simp: sh ids_buildShuffledQueue)
  show ?thesis
    unfolding queuesInv_def playSongIn_queues(1,2)
    using cur ids sh by (auto split: option.splits)
qed

lemma queuesInv_playNextIn:
  assumes "queuesInv s" and "closesOver lib s r"
  shows "queuesInv (playNextIn r rnd s)"
proof -
  have aq: "activeQueue (hooks r) = activeQueue s" and cq: "currentQueue (hooks r) = currentQueue s"
    and sa: "isShuffleActive (hooks r) = isShuffleActive s"
    using assms(2) by (simp_all add: closesOver_def activeQueue_def)
  have k: "song_id (activeQueue s ! j) \<in> song_id ` set (currentQueue s)"
    if "j < length (activeQueue s)" for j
  proof -
    have "activeQueue s ! j \<in> set (activeQueue s)" using that by simp
    then show ?thesis using assms(1) by (auto simp: queuesInv_def activeQueue_def split: if_splits)
  qed
  have c: "song_id c \<in> song_id ` set (currentQueue s)" if "currentSong s = Some c" for c
    using assms(1) that by (simp add: queuesInv_def)
  have ps: "queuesInv (playSongIn r rnd (activeQueue s ! j) (Some (currentQueue s)) s)"
    if "j < length (activeQueue s)" for j
    using assms(1) sa k [OF that] c by (rule queuesInv_playSongIn)
  have stop: "queuesInv (s\<lparr>isPlaying := False\<rparr>)"
    using assms(1) by (simp add: queuesInv_def cong: option.case_cong)
  show ?thesis
    using assms(1) ps stop
    by (auto simp: playNextIn_def aq cq Let_def split: option.splits dest: findIndex_Some_less)
qed

lemma queuesInv_playPreviousIn:
  assumes "queuesInv s" and "closesOver lib s r"
  shows "queuesInv (playPreviousIn r rnd s)"
proof -
  have aq: "activeQueue (hooks r) = activeQueue s" and cq: "currentQueue (hooks r) = currentQueue s"
    and sa: "isShuffleActive (hooks r) = isShuffleActive s"
    using assms(2) by (simp_all add: closesOver_def activeQueue_def)
  have k: "song_id (activeQueue s ! j) \<in> song_id ` set (currentQueue s)"
    if "j < length (activeQueue s)" for j
  proof -
    have "activeQueue s ! j \<in> set (activeQueue s)" using that by simp
    then show ?thesis using assms(1) by (auto simp: queuesInv_def activeQueue_def split: if_splits)
  qed
  have c: "song_id c \<in> song_id ` set (currentQueue s)" if "currentSong s = Some c" for c
    using assms(1) that by (simp add: queuesInv_def)
  have ps: "queuesInv (playSongIn r rnd (activeQueue s ! j) (Some (currentQueue s)) s)"
    if "j < length (activeQueue s)" for j
    using assms(1) sa k [OF that] c by (rule queuesInv_playSongIn)
  show ?thesis
    using assms(1) ps
    by (auto simp: playPreviousIn_def aq cq Let_def split: option.splits)
qed

lemma queuesInv_toggleShuffle:
  assumes "queuesInv s"
  shows "queuesInv (toggleShuffle rnd s)"
proof (cases "currentSong s")
  case None
  then show ?thesis by (simp add: queuesInv_def toggleShuffle_def Let_def)
next
  case (Some c)
  then have "song_id c \<in> song_id ` set (currentQueue s)"
    using assms by (simp add: queuesInv_def)
  then show ?thesis
    using Some by (auto simp: queuesInv_def toggleShuffle_def Let_def ids_buildShuffledQueue)
qed

lemma queuesInv_sessionAfter:
  assumes "appInv ap" and "queuesInv (session ap)"
  shows "queuesInv (sessionAfter rnd e ap)"
proof -
  let ?s = "session ap" and ?lib = "library ap"
  let ?now = "\<lparr>songsProp = ?lib, hooks = ?s\<rparr>"
  from assms(1) have inv: "sessionInv ?lib ?s"
    and ce: "closesOver ?lib ?s (endedListener ap)"
    and cm: "\<And>r. mediaHandlers ap = Some r \<Longrightarrow> closesOver ?lib ?s r"
    by (simp_all add: appInv_def)
  note cn = closesOver_current [OF inv]
  have plain: "queuesInv (s'\<lparr>isPlaying := b, effects := es\<rparr>)" if "queuesInv s'" for s' b es
    using that by (simp add: queuesInv_def cong: option.case_cong)
  show ?thesis
  proof (cases e)
    case (ClickSong i)
    show ?thesis
    proof (cases "i < length ?lib")
      case True
      have "queuesInv (playSongIn ?now rnd (?lib ! i) (Some ?lib) ?s)"
        using assms(2) True inv
        by (intro queuesInv_playSongIn) (auto simp: sessionInv_def)
      then show ?thesis using ClickSong True by (simp add: playSongIn_current)
    next
      case False
      then show ?thesis using ClickSong assms(2) by simp
    qed
  next
    case (ClickRecent i)
    show ?thesis
    proof (cases "i < length (recentlyPlayed ?s)")
      case True
      have "queuesInv (playSongIn ?now rnd (recentlyPlayed ?s ! i) (Some (recentlyPlayed ?s)) ?s)"
        using assms(2) True inv
        by (intro queuesInv_playSongIn) (auto simp: sessionInv_def split: list.splits)
      then show ?thesis using ClickRecent True by (simp add: playSongIn_current)
    next
      case False
      then show ?thesis using ClickRecent assms(2) by simp
    qed
  next
    case PressNext
    then show ?thesis
      using queuesInv_playNextIn [OF assms(2) cn, of rnd] by (simp add: playNextIn_current)
  next
    case PressPrevious
    then show ?thesis
      using queuesInv_playPreviousIn [OF assms(2) cn, of rnd] by (simp add: playPreviousIn_current)
  next
    case PressPlayPause
    then show ?thesis
      using assms(2) plain [OF assms(2)] by (simp add: togglePlayPause_def split: option.splits)
  next
    case PressShuffle
    then show ?thesis using queuesInv_toggleShuffle [OF assms(2)] by simp
  next
    case AudioEnded
    show ?thesis
    proof (cases "repeatMode (hooks (endedListener ap)) = RepeatOne")
      case True
      have "queuesInv (?s\<lparr>effects := effects ?s @ [SetCurrentTime 0, Play]\<rparr>)"
        using assms(2) by (simp add: queuesInv_def cong: option.case_cong)
      then show ?thesis using AudioEnded True by (simp add: handleEnded_def)
    next
      case False
      then show ?thesis
        using AudioEnded queuesInv_playNextIn [OF assms(2) ce, of rnd] by (simp add: handleEnded_def)
    qed
  next
    case MediaPlay
    then show ?thesis
      using assms(2) plain [OF assms(2)]
      by (simp add: viaMedia_def togglePlayPauseIn_def split: option.splits)
  next
    case MediaPause
    then show ?thesis
      using assms(2) plain [OF assms(2)]
      by (simp add: viaMedia_def togglePlayPauseIn_def split: option.splits)
  next
    case MediaNextTrack
    then show ?thesis
      using assms(2) queuesInv_playNextIn [OF assms(2) cm, of _ rnd]
      by (simp add: viaMedia_def split: option.splits)
  next
    case MediaPreviousTrack
    then show ?thesis
      using assms(2) queuesInv_playPreviousIn [OF assms(2) cm, of _ rnd]
      by (simp add: viaMedia_def split: option.splits)
  qed (use assms(2) in \<open>simp_all add: queuesInv_def toggleRepeat_def seek_def handleTimeUpdate_def
        handleLoadedMetadata_def openFullPlayer_def closeFullPlayer_def cong: option.case_cong\<close>)
qed

lemma reachable_queuesInv: "reachable rnd ap \<Longrightarrow> queuesInv (session ap)"
proof (induction rule: reachable.induct)
  case (reachable_init h)
  then show ?case by (simp add: initApp_def initPlayer_def queuesInv_def)
next
  case (reachable_step ap e)
  then show ?case
    using queuesInv_sessionAfter [OF reachable_appInv, of rnd ap rnd e]
    by (simp add: step_def rerender_fields)
qed

lemma reachable_current_found:
  assumes "reachable rnd ap" and "currentSong (session ap) = Some c"
  shows "\<exists>i. indexOfCurrent (session ap) = Some i"
proof -
  from reachable_queuesInv [OF assms(1)] assms(2)
  have "song_id c \<in> song_id ` set (activeQueue (session ap))"
    by (auto simp: queuesInv_def activeQueue_def)
  then have "findIndex (\<lambda>x. song_id x = song_id c) (activeQueue (session ap)) \<noteq> None"
    by (auto simp: findIndex_None_iff)
  then show ?thesis using assms(2) by (auto simp: indexOfCurrent_def)
qed

section \<open>The same operations in a registered closure\<close>

text \<open>
  What the \<open>ended\<close> listener and the media-session handlers do when their render is not
  the current one. A registered closure agrees with the current state on the current
  song, the queues and the shuffle flag; what it reads of \<open>isPlaying\<close>, \<open>repeatMode\<close> and
  \<open>songs\<close> can be older.
\<close>

lemma reachable_endedListener:
  "reachable rnd ap \<Longrightarrow> closesOver (library ap) (session ap) (endedListener ap)"
  using reachable_appInv [of rnd ap] by (simp add: appInv_def)

lemma reachable_mediaHandlers:
  "reachable rnd ap \<Longrightarrow> mediaHandlers ap = Some r \<Longrightarrow> closesOver (library ap) (session ap) r"
  using reachable_appInv [of rnd ap] by (simp add: appInv_def)

lemma playSongIn_stale_evicts_and_aborts:
  assumes "song_file t = None" and "song_id t \<notin> song_id ` set (songsProp r)"
  shows "song_id t \<notin> song_id ` set (recentlyPlayed (playSongIn r rnd t q s)) \<and>
         effects (playSongIn r rnd t q s) = effects s @ [Alert] \<and>
         currentSong (playSongIn r rnd t q s) = currentSong s \<and>
         isPlaying (playSongIn r rnd t q s) = isPlaying s"
  using resolveSong_stale [OF assms]
  by (auto simp: playSongIn_def setQueuesIn_fields Let_def)

lemma playSongIn_current_toggles:
  assumes "resolveSong (songsProp r) t = Some song" and "currentSong (hooks r) = Some X"
    and "song_id song = song_id X"
  shows "isPlaying (playSongIn r rnd t q s) = (\<not> isPlaying (hooks r)) \<and>
         effects (playSongIn r rnd t q s) = effects s @ [if isPlaying (hooks r) then Pause else Play] \<and>
         currentSong (playSongIn r rnd t q s) = currentSong s"
  using assms by (simp add: playSongIn_def togglePlayPauseIn_def setQueuesIn_fields Let_def)

lemma playNextIn_at_last_index:
  assumes "indexOfCurrent (hooks r) = Some (length (activeQueue (hooks r)) - 1)"
  shows "playNextIn r rnd s =
           (if repeatMode (hooks r) = RepeatAll
            then playSongIn r rnd (hd (activeQueue (hooks r))) (Some (currentQueue (hooks r))) s
            else s\<lparr>isPlaying := False\<rparr>)"
proof -
  from indexOfCurrentD [OF assms] obtain c where c: "currentSong (hooks r) = Some c"
    and f: "findIndex (\<lambda>x. song_id x = song_id c) (activeQueue (hooks r))
              = Some (length (activeQueue (hooks r)) - 1)"
    and ne: "activeQueue (hooks r) \<noteq> []"
    by blast
  have "activeQueue (hooks r) ! 0 = hd (activeQueue (hooks r))" using ne by (simp add: hd_conv_nth)
  then show ?thesis using c f ne by (simp add: playNextIn_def Let_def)
qed

lemma playSongIn_history:
  "recentlyPlayed (playSongIn r rnd t q s) =
     (case resolveSong (songsProp r) t of
        None \<Rightarrow> filter (\<lambda>x. song_id x \<noteq> song_id t) (recentlyPlayed s)
      | Some song \<Rightarrow>
          if (case currentSong (hooks r) of None \<Rightarrow> False | Some c \<Rightarrow> song_id c = song_id song)
             \<or> song_file song \<noteq> None
          then pushHistory song (recentlyPlayed s)
          else recentlyPlayed s)"
  by (auto simp: playSongIn_def Let_def setQueuesIn_fields togglePlayPauseIn_def split: option.splits)

lemma playSongIn_history_capped_deduplicated:
  assumes "reachable rnd ap"
  shows "length (recentlyPlayed (playSongIn r rnd' t q (session ap))) \<le> 50 \<and>
         distinct (map song_id (recentlyPlayed (playSongIn r rnd' t q (session ap))))"
proof -
  let ?h = "recentlyPlayed (session ap)"
  from reachable_sessionInv [OF assms]
  have d: "distinct (map song_id ?h)" and l: "length ?h \<le> 50"
    by (simp_all add: sessionInv_def)
  have lf: "length (filter (\<lambda>x. song_id x \<noteq> song_id t) ?h) \<le> 50"
    using l by (rule order_trans [OF length_filter_le])
  show ?thesis
    using d l lf
    by (simp add: playSongIn_history pushHistory_length pushHistory_distinct distinct_map_filter
        split: option.splits)
qed

end
